theory Spec2Isabelle
  imports Complex_Main "HOL-Library.Char_ord"
begin

section \<open>Strings\<close>

definition isUpper :: "char \<Rightarrow> bool" where
  "isUpper c = (CHR ''A'' \<le> c \<and> c \<le> CHR ''Z'')"

definition isLower :: "char \<Rightarrow> bool" where
  "isLower c = (CHR ''a'' \<le> c \<and> c \<le> CHR ''z'')"

definition isDigit :: "char \<Rightarrow> bool" where
  "isDigit c = (CHR ''0'' \<le> c \<and> c \<le> CHR ''9'')"

definition isSpace :: "char \<Rightarrow> bool" where
  "isSpace c = (c \<in> set [CHR 0x09, CHR 0x0A, CHR 0x0B, CHR 0x0C, CHR 0x0D, CHR 0x20, CHR 0xA0])"

definition isWordChar :: "char \<Rightarrow> bool" where
  "isWordChar c = (isLower c \<or> isUpper c \<or> isDigit c \<or> c = CHR ''_'')"

definition isUpperLatin1 :: "char \<Rightarrow> bool" where
  "isUpperLatin1 c = (CHR 0xC0 \<le> c \<and> c \<le> CHR 0xDE \<and> c \<noteq> CHR 0xD7)"

definition isLowerLatin1 :: "char \<Rightarrow> bool" where
  "isLowerLatin1 c = (CHR 0xE0 \<le> c \<and> c \<le> CHR 0xFE \<and> c \<noteq> CHR 0xF7)"

definition toLowerChar :: "char \<Rightarrow> char" where
  "toLowerChar c = (if isUpper c \<or> isUpperLatin1 c then char_of (of_char c + (32::nat)) else c)"

definition toUpperChar :: "char \<Rightarrow> char" where
  "toUpperChar c = (if isLower c \<or> isLowerLatin1 c then char_of (of_char c - (32::nat)) else c)"

definition toLowerCase :: "string \<Rightarrow> string" where
  "toLowerCase s = map toLowerChar s"

fun startsWith :: "string \<Rightarrow> string \<Rightarrow> bool" where
  "startsWith s [] = True"
| "startsWith [] (c # cs) = False"
| "startsWith (x # xs) (c # cs) = (x = c \<and> startsWith xs cs)"

fun includesStr :: "string \<Rightarrow> string \<Rightarrow> bool" where
  "includesStr [] sub = (sub = [])"
| "includesStr (x # xs) sub = (startsWith (x # xs) sub \<or> includesStr xs sub)"

definition trim :: "string \<Rightarrow> string" where
  "trim s = rev (dropWhile isSpace (rev (dropWhile isSpace s)))"


section \<open>Regular expressions\<close>

datatype citem = Single char | Range char char | Space | Digit

fun citem_mem :: "char \<Rightarrow> citem \<Rightarrow> bool" where
  "citem_mem x (Single c) = (x = c)"
| "citem_mem x (Range lo hi) = (lo \<le> x \<and> x \<le> hi)"
| "citem_mem x Space = isSpace x"
| "citem_mem x Digit = isDigit x"

definition class_mem :: "bool \<Rightarrow> citem list \<Rightarrow> char \<Rightarrow> bool" where
  "class_mem ci items x =
     (if ci then list_ex (citem_mem x) items \<or> list_ex (citem_mem (toUpperChar x)) items
                 \<or> list_ex (citem_mem (toLowerChar x)) items
      else list_ex (citem_mem x) items)"

definition lit_eq :: "bool \<Rightarrow> char \<Rightarrow> char \<Rightarrow> bool" where
  "lit_eq ci c x = (if ci then toUpperChar x = toUpperChar c else x = c)"

datatype regex =
    Eps
  | Lit char
  | Class bool "citem list"
  | WordB
  | Seq regex regex
  | Alt regex regex
  | Group nat regex
  | Rep nat "nat option" regex

type_synonym captures = "(nat \<times> int \<times> int) list"
type_synonym mstate = "int \<times> char option \<times> string \<times> captures"
type_synonym cont = "mstate \<Rightarrow> mstate option"

fun endIndex :: "mstate \<Rightarrow> int" where
  "endIndex (i, p, r, c) = i"

fun remaining :: "mstate \<Rightarrow> string" where
  "remaining (i, p, r, c) = r"

fun capturesOf :: "mstate \<Rightarrow> captures" where
  "capturesOf (i, p, r, c) = c"

fun setcap :: "nat \<Rightarrow> int \<Rightarrow> mstate \<Rightarrow> mstate" where
  "setcap n i (i', p', r', c') = (i', p', r', (n, i, i') # c')"

fun clearcaps :: "nat list \<Rightarrow> mstate \<Rightarrow> mstate" where
  "clearcaps ns (i, p, r, c) = (i, p, r, filter (\<lambda>e. fst e \<notin> set ns) c)"

fun groups :: "regex \<Rightarrow> nat list" where
  "groups (Seq a b) = groups a @ groups b"
| "groups (Alt a b) = groups a @ groups b"
| "groups (Group n r) = n # groups r"
| "groups (Rep lo hi r) = groups r"
| "groups r = []"

fun atBoundary :: "mstate \<Rightarrow> bool" where
  "atBoundary (i, p, r, c) =
     ((case p of None \<Rightarrow> False | Some a \<Rightarrow> isWordChar a) \<noteq>
      (case r of [] \<Rightarrow> False | b # bs \<Rightarrow> isWordChar b))"

fun step :: "(char \<Rightarrow> bool) \<Rightarrow> cont \<Rightarrow> mstate \<Rightarrow> mstate option" where
  "step ok k (i, p, [], c) = None"
| "step ok k (i, p, x # xs, c) = (if ok x then k (i + 1, Some x, xs, c) else None)"

fun dec :: "nat option \<Rightarrow> nat option" where
  "dec None = None"
| "dec (Some h) = Some (h - 1)"

fun rep :: "(cont \<Rightarrow> cont) \<Rightarrow> nat \<Rightarrow> nat option \<Rightarrow> string \<Rightarrow> cont \<Rightarrow> mstate \<Rightarrow> mstate option" where
  "rep f lo hi fuel k (i, p, r, c) =
     (if hi = Some 0 then k (i, p, r, c)
      else case lo of
             Suc lo' \<Rightarrow> f (rep f lo' (dec hi) fuel k) (i, p, r, c)
           | 0 \<Rightarrow>
               (case fuel of
                  [] \<Rightarrow> k (i, p, r, c)
                | x # fuel' \<Rightarrow>
                    (case f (\<lambda>s'. if i < endIndex s' then rep f 0 (dec hi) fuel' k s' else None)
                            (i, p, r, c) of
                       Some res \<Rightarrow> Some res
                     | None \<Rightarrow> k (i, p, r, c))))"

fun rmatch :: "bool \<Rightarrow> regex \<Rightarrow> cont \<Rightarrow> mstate \<Rightarrow> mstate option" where
  "rmatch ci Eps k s = k s"
| "rmatch ci (Lit c) k s = step (lit_eq ci c) k s"
| "rmatch ci (Class neg items) k s = step (\<lambda>x. class_mem ci items x \<noteq> neg) k s"
| "rmatch ci WordB k s = (if atBoundary s then k s else None)"
| "rmatch ci (Seq a b) k s = rmatch ci a (rmatch ci b k) s"
| "rmatch ci (Alt a b) k s =
     (case rmatch ci a k s of Some res \<Rightarrow> Some res | None \<Rightarrow> rmatch ci b k s)"
| "rmatch ci (Group n r) k s = rmatch ci r (\<lambda>s'. k (setcap n (endIndex s) s')) s"
| "rmatch ci (Rep lo hi r) k (i, p, rs, c) =
     rep (\<lambda>k' s'. rmatch ci r k' (clearcaps (groups r) s')) lo hi rs k (i, p, rs, c)"

definition str :: "string \<Rightarrow> regex" where
  "str cs = foldr (\<lambda>c r. Seq (Lit c) r) cs Eps"

fun alts :: "regex list \<Rightarrow> regex" where
  "alts [] = Eps"
| "alts [r] = r"
| "alts (r # rs) = Alt r (alts rs)"

fun seqs :: "regex list \<Rightarrow> regex" where
  "seqs [] = Eps"
| "seqs [r] = r"
| "seqs (r # rs) = Seq r (seqs rs)"

definition words :: "string list \<Rightarrow> regex" where
  "words ws = alts (map str ws)"

definition Plus :: "regex \<Rightarrow> regex" where "Plus r = Rep 1 None r"
definition Star :: "regex \<Rightarrow> regex" where "Star r = Rep 0 None r"
definition Opt :: "regex \<Rightarrow> regex" where "Opt r = Rep 0 (Some 1) r"

record rx =
  rx_source :: string
  ignoreCase :: bool
  body :: regex

fun exec_at :: "rx \<Rightarrow> int \<Rightarrow> char option \<Rightarrow> string \<Rightarrow> (int \<times> int \<times> captures) option" where
  "exec_at re i p rs =
     (case rmatch (ignoreCase re) (body re) Some (i, p, rs, []) of
        Some (i', p', r', c') \<Rightarrow> Some (i, i', c')
      | None \<Rightarrow> None)"

fun exec_from :: "rx \<Rightarrow> int \<Rightarrow> char option \<Rightarrow> string \<Rightarrow> (int \<times> int \<times> captures) option" where
  "exec_from re i p [] = exec_at re i p []"
| "exec_from re i p (x # xs) =
     (case exec_at re i p (x # xs) of
        Some m \<Rightarrow> Some m
      | None \<Rightarrow> exec_from re (i + 1) (Some x) xs)"

definition substring :: "string \<Rightarrow> int \<Rightarrow> int \<Rightarrow> string" where
  "substring text b e = take (nat (e - b)) (drop (nat b) text)"

definition matchArray :: "string \<Rightarrow> rx \<Rightarrow> int \<times> int \<times> captures \<Rightarrow> string option list" where
  "matchArray text re m =
     (case m of (b, e, caps) \<Rightarrow>
        Some (substring text b e) #
        map (\<lambda>n. case map_of caps n of None \<Rightarrow> None | Some (gb, ge) \<Rightarrow> Some (substring text gb ge))
          [1 ..< Suc (length (groups (body re)))])"

definition match :: "string \<Rightarrow> rx \<Rightarrow> string option list option" where
  "match text re = map_option (matchArray text re) (exec_from re 0 None text)"

definition test :: "rx \<Rightarrow> string \<Rightarrow> bool" where
  "test re text = (exec_from re 0 None text \<noteq> None)"



subsection \<open>Invariants of a match\<close>

definition wf_state :: "int \<Rightarrow> mstate \<Rightarrow> bool" where
  "wf_state L s = (0 \<le> endIndex s \<and> endIndex s + int (length (remaining s)) = L)"

fun nonempty :: "regex \<Rightarrow> bool" where
  "nonempty (Lit c) = True"
| "nonempty (Class neg items) = True"
| "nonempty (Seq a b) = (nonempty a \<or> nonempty b)"
| "nonempty (Alt a b) = (nonempty a \<and> nonempty b)"
| "nonempty (Group n r) = nonempty r"
| "nonempty r = False"

definition follows :: "int \<Rightarrow> bool \<Rightarrow> nat list \<Rightarrow> mstate \<Rightarrow> mstate \<Rightarrow> bool" where
  "follows L strict ns s s' =
     (wf_state L s' \<and> endIndex s \<le> endIndex s' \<and> (strict \<longrightarrow> endIndex s < endIndex s') \<and>
      (\<forall>n. n \<notin> set ns \<longrightarrow> map_of (capturesOf s') n = map_of (capturesOf s) n))"

definition sound_body :: "int \<Rightarrow> nat list \<Rightarrow> (cont \<Rightarrow> cont) \<Rightarrow> bool" where
  "sound_body L ns f =
     (\<forall>k s res. wf_state L s \<longrightarrow> f k s = Some res \<longrightarrow>
        (\<exists>s'. follows L False ns s s' \<and> k s' = Some res))"

fun binds :: "nat \<Rightarrow> regex \<Rightarrow> bool" where
  "binds n (Seq a b) = ((binds n a \<and> n \<notin> set (groups b)) \<or> binds n b)"
| "binds n (Alt a b) = (binds n a \<and> binds n b)"
| "binds n (Group m r) = (if m = n then nonempty r else binds n r)"
| "binds n r = False"

definition captured :: "int \<Rightarrow> nat \<Rightarrow> mstate \<Rightarrow> bool" where
  "captured L n s =
     (\<exists>b e. map_of (capturesOf s) n = Some (b, e) \<and> 0 \<le> b \<and> b < e \<and> e \<le> L)"

definition agree :: "int \<Rightarrow> int \<Rightarrow> cont \<Rightarrow> cont \<Rightarrow> bool" where
  "agree L i k1 k2 = (\<forall>s'. wf_state L s' \<and> i \<le> endIndex s' \<longrightarrow> k1 s' = k2 s')"

definition local_body :: "int \<Rightarrow> (cont \<Rightarrow> cont) \<Rightarrow> bool" where
  "local_body L f =
     (\<forall>k1 k2 s. wf_state L s \<longrightarrow> agree L (endIndex s) k1 k2 \<longrightarrow> f k1 s = f k2 s)"

definition inside_body :: "(cont \<Rightarrow> cont) \<Rightarrow> bool" where
  "inside_body f =
     (\<forall>k s res. f k s = Some res \<longrightarrow>
        (\<exists>s'. set (remaining s') \<subseteq> set (remaining s) \<and> k s' = Some res))"

subsection \<open>Global matching\<close>

fun matches_from :: "rx \<Rightarrow> int \<Rightarrow> char option \<Rightarrow> string \<Rightarrow> int \<Rightarrow> (int \<times> int) list" where
  "matches_from re i p [] lastIndex =
     (if i < lastIndex then []
      else (case exec_at re i p [] of Some (b, e, caps) \<Rightarrow> [(b, e)] | None \<Rightarrow> []))"
| "matches_from re i p (x # xs) lastIndex =
     (if i < lastIndex then matches_from re (i + 1) (Some x) xs lastIndex
      else (case exec_at re i p (x # xs) of
              Some (b, e, caps) \<Rightarrow> (b, e) # matches_from re (i + 1) (Some x) xs (max e (i + 1))
            | None \<Rightarrow> matches_from re (i + 1) (Some x) xs lastIndex))"

definition matchAll :: "string \<Rightarrow> rx \<Rightarrow> string list" where
  "matchAll text re = map (\<lambda>(b, e). substring text b e) (matches_from re 0 None text 0)"

definition grp :: "string option list \<Rightarrow> nat \<Rightarrow> string option" where
  "grp m n = (if n < length m then m ! n else None)"

section \<open>Values of the host language\<close>

definition truthy :: "string option \<Rightarrow> bool" where
  "truthy v = (case v of None \<Rightarrow> False | Some s \<Rightarrow> s \<noteq> [])"

definition orElse :: "string option \<Rightarrow> string option \<Rightarrow> string option" where
  "orElse a b = (if truthy a then a else b)"

definition orEmpty :: "string option \<Rightarrow> string" where
  "orEmpty v = (case v of None \<Rightarrow> [] | Some s \<Rightarrow> s)"

definition showValue :: "string option \<Rightarrow> string" where
  "showValue v = (case v of None \<Rightarrow> ''undefined'' | Some s \<Rightarrow> s)"

definition digitChar :: "int \<Rightarrow> char" where
  "digitChar d = (''0123456789'' ! nat d)"

function showDigits :: "int \<Rightarrow> string" where
  "showDigits n = (if n < 10 then [digitChar n] else showDigits (n div 10) @ [digitChar (n mod 10)])"
  by pat_completeness auto
termination
  by (relation "measure nat") auto

definition showInt :: "int \<Rightarrow> string" where
  "showInt n = (if n < 0 then CHR ''-'' # showDigits (- n) else showDigits n)"

definition slice0 :: "'a list \<Rightarrow> int \<Rightarrow> 'a list" where
  "slice0 xs end = (if end < 0 then take (nat (int (length xs) + end)) xs else take (nat end) xs)"

subsection \<open>Binary64 sums\<close>

definition roundHalfEven :: "rat \<Rightarrow> int" where
  "roundHalfEven x =
     (let f = \<lfloor>x\<rfloor>; d = x - of_int f
      in if d < 1 / 2 then f else if 1 / 2 < d then f + 1 else if even f then f else f + 1)"

definition fl :: "rat \<Rightarrow> rat" where
  "fl q = (if 1 / 2 \<le> q \<and> q < 1 then of_int (roundHalfEven (q * 2 ^ 53)) / 2 ^ 53
           else if 1 \<le> q \<and> q < 2 then of_int (roundHalfEven (q * 2 ^ 52)) / 2 ^ 52
           else q)"

definition fadd :: "rat \<Rightarrow> rat \<Rightarrow> rat" where
  "fadd x y = fl (x + y)"

definition d0_6 :: rat where "d0_6 = 5404319552844595 / 2 ^ 53"
definition d0_2 :: rat where "d0_2 = 3602879701896397 / 2 ^ 54"
definition d0_1 :: rat where "d0_1 = 3602879701896397 / 2 ^ 55"
definition d0_05 :: rat where "d0_05 = 3602879701896397 / 2 ^ 56"
definition d0_95 :: rat where "d0_95 = 4278419646001971 / 2 ^ 52"


section \<open>Pattern library\<close>

definition bs :: string where
  "bs = [CHR 0x5C]"

definition digit :: regex where "digit = Class False [Digit]"
definition space :: regex where "space = Class False [Space]"

definition monthNames :: "string list" where
  "monthNames =
     [''january'', ''february'', ''march'', ''april'', ''may'', ''june'', ''july'', ''august'',
      ''september'', ''october'', ''november'', ''december'']"

definition monthAbbrevs :: "string list" where
  "monthAbbrevs =
     [''jan'', ''feb'', ''mar'', ''apr'', ''may'', ''jun'', ''jul'', ''aug'', ''sep'', ''oct'',
      ''nov'', ''dec'']"

definition weekdayAbbrevs :: "string list" where
  "weekdayAbbrevs = [''mon'', ''tue'', ''wed'', ''thu'', ''fri'', ''sat'', ''sun'']"

definition ordinalSuffixes :: "string list" where
  "ordinalSuffixes = [''st'', ''nd'', ''rd'', ''th'']"

subsection \<open>containsDatePattern\<close>

definition containsDatePattern_datePatterns :: "rx list" where
  "containsDatePattern_datePatterns =
     [\<lparr>rx_source = bs @ ''b(january|february|march|april|may|june|july|august|september|october|november|december)'' @ bs @ ''s+'' @ bs @ ''d{1,2}'',
       ignoreCase = True,
       body = seqs [WordB, Group 1 (words monthNames), Plus space, Rep 1 (Some 2) digit]\<rparr>,
      \<lparr>rx_source = bs @ ''b'' @ bs @ ''d{1,2}'' @ bs @ ''/'' @ bs @ ''d{1,2}'' @ bs @ ''/'' @ bs @ ''d{2,4}'' @ bs @ ''b'',
       ignoreCase = False,
       body = seqs [WordB, Rep 1 (Some 2) digit, Lit CHR ''/'', Rep 1 (Some 2) digit, Lit CHR ''/'',
                    Rep 2 (Some 4) digit, WordB]\<rparr>,
      \<lparr>rx_source = bs @ ''b(mon|tue|wed|thu|fri|sat|sun)[a-z]*'' @ bs @ ''s*,?'' @ bs @ ''s*(jan|feb|mar|apr|may|jun|jul|aug|sep|oct|nov|dec)'',
       ignoreCase = True,
       body = seqs [WordB, Group 1 (words weekdayAbbrevs), Star (Class False [Range CHR ''a'' CHR ''z'']),
                    Star space, Opt (Lit CHR '',''), Star space, Group 2 (words monthAbbrevs)]\<rparr>,
      \<lparr>rx_source = bs @ ''b(today|tomorrow|tonight|this'' @ bs @ ''s+(week|weekend|month))'' @ bs @ ''b'',
       ignoreCase = True,
       body = seqs [WordB,
                    Group 1 (alts [str ''today'', str ''tomorrow'', str ''tonight'',
                                   seqs [str ''this'', Plus space,
                                         Group 2 (words [''week'', ''weekend'', ''month''])]]),
                    WordB]\<rparr>,
      \<lparr>rx_source = bs @ ''b'' @ bs @ ''d{1,2}(st|nd|rd|th)'' @ bs @ ''s+(of'' @ bs @ ''s+)?(january|february|march|april|may|june|july|august|september|october|november|december)'',
       ignoreCase = True,
       body = seqs [WordB, Rep 1 (Some 2) digit, Group 1 (words ordinalSuffixes), Plus space,
                    Opt (Group 2 (Seq (str ''of'') (Plus space))), Group 3 (words monthNames)]\<rparr>]"

definition containsDatePattern :: "string \<Rightarrow> bool" where
  "containsDatePattern text = list_ex (\<lambda>pattern. test pattern text) containsDatePattern_datePatterns"

subsection \<open>containsVenuePattern\<close>

definition containsVenuePattern_venuePatterns :: "rx list" where
  "containsVenuePattern_venuePatterns =
     [\<lparr>rx_source = bs @ ''b(at|@)'' @ bs @ ''s+[A-Z][a-zA-Z'' @ bs @ ''s]+'' @ bs @ ''b'',
       ignoreCase = False,
       body = seqs [WordB, Group 1 (alts [str ''at'', Lit CHR ''@'']), Plus space,
                    Class False [Range CHR ''A'' CHR ''Z''],
                    Plus (Class False [Range CHR ''a'' CHR ''z'', Range CHR ''A'' CHR ''Z'', Space]),
                    WordB]\<rparr>,
      \<lparr>rx_source = bs @ ''b(venue|location|address|hall|center|theatre|theater|auditorium|stadium|arena)'' @ bs @ ''b'',
       ignoreCase = True,
       body = seqs [WordB,
                    Group 1 (words [''venue'', ''location'', ''address'', ''hall'', ''center'', ''theatre'',
                                    ''theater'', ''auditorium'', ''stadium'', ''arena'']),
                    WordB]\<rparr>,
      \<lparr>rx_source = bs @ ''b'' @ bs @ ''d+'' @ bs @ ''s+[A-Z][a-zA-Z'' @ bs @ ''s]+'' @ bs @ ''s+(street|st|avenue|ave|road|rd|boulevard|blvd|drive|dr)'' @ bs @ ''b'',
       ignoreCase = True,
       body = seqs [WordB, Plus digit, Plus space, Class False [Range CHR ''A'' CHR ''Z''],
                    Plus (Class False [Range CHR ''a'' CHR ''z'', Range CHR ''A'' CHR ''Z'', Space]),
                    Plus space,
                    Group 1 (words [''street'', ''st'', ''avenue'', ''ave'', ''road'', ''rd'', ''boulevard'',
                                    ''blvd'', ''drive'', ''dr'']),
                    WordB]\<rparr>]"

definition containsVenuePattern :: "string \<Rightarrow> bool" where
  "containsVenuePattern text = list_ex (\<lambda>pattern. test pattern text) containsVenuePattern_venuePatterns"


definition capitalVenueRule :: rx where
  "capitalVenueRule = hd containsVenuePattern_venuePatterns"


section \<open>Data model\<close>

record RawResult =
  r_title :: "string option"
  r_snippet :: "string option"
  r_link :: "string option"
  r_question :: "string option"

record DateInfo =
  startDate :: string
  endDate :: string

record Event =
  ev_id :: string
  ev_title :: string
  ev_description :: string
  ev_category :: string
  ev_venue :: string
  ev_location :: string
  ev_startDate :: string
  ev_endDate :: string
  ev_eventUrl :: "string option"
  ev_ticketUrl :: "string option"
  ev_source :: string
  ev_confidence :: rat
  ev_thumbnail :: "string option"

text \<open>
  The clock and the date parser of the host: \<open>nowIso\<close> is \<open>new Date().toISOString()\<close>,
  \<open>nowYear\<close> is \<open>getFullYear()\<close> of the same instant, and \<open>parseDate s\<close> is
  \<open>new Date(s)\<close>: \<open>None\<close> when its time value is NaN, otherwise its \<open>toISOString()\<close>.
\<close>

record Clock =
  nowIso :: string
  nowYear :: int
  parseDate :: "string \<Rightarrow> string option"

section \<open>Event classifier\<close>

definition filterEventResults_eventKeywords :: "string list" where
  "filterEventResults_eventKeywords =
     [''event'', ''festival'', ''concert'', ''conference'', ''workshop'', ''meetup'',
      ''seminar'', ''exhibition'', ''show'', ''performance'', ''gathering'', ''summit'',
      ''fair'', ''expo'', ''convention'', ''symposium'', ''webinar'', ''class'',
      ''eventbrite'', ''meetup.com'', ''facebook.com/events'', ''tickets'',
      ''registration'', ''rsvp'', ''calendar'']"

definition searchText :: "RawResult \<Rightarrow> string" where
  "searchText result =
     toLowerCase (orEmpty (r_title result)) @ '' '' @ toLowerCase (orEmpty (r_snippet result)) @ '' '' @
     toLowerCase (orEmpty (r_link result)) @ '' '' @ toLowerCase (orEmpty (r_question result))"

definition isEventResult :: "RawResult \<Rightarrow> bool" where
  "isEventResult result =
     (list_ex (\<lambda>keyword. includesStr (searchText result) keyword) filterEventResults_eventKeywords \<or>
      containsDatePattern (searchText result) \<or>
      containsVenuePattern (searchText result))"

definition filterEventResults :: "RawResult list \<Rightarrow> RawResult list" where
  "filterEventResults results = filter isEventResult results"

section \<open>Field extractor\<close>

definition monthDayPattern :: rx where
  "monthDayPattern =
     \<lparr>rx_source = bs @ ''b(january|february|march|april|may|june|july|august|september|october|november|december)'' @ bs @ ''s+('' @ bs @ ''d{1,2}),?'' @ bs @ ''s*('' @ bs @ ''d{4})?'',
      ignoreCase = True,
      body = seqs [WordB, Group 1 (words monthNames), Plus space, Group 2 (Rep 1 (Some 2) digit),
      Opt (Lit CHR '',''), Star space, Opt (Group 3 (Rep 4 (Some 4) digit))]\<rparr>"

definition slashDatePattern :: rx where
  "slashDatePattern =
     \<lparr>rx_source = bs @ ''b('' @ bs @ ''d{1,2})'' @ bs @ ''/('' @ bs @ ''d{1,2})'' @ bs @ ''/('' @ bs @ ''d{2,4})'' @ bs @ ''b'',
      ignoreCase = False,
      body = seqs [WordB, Group 1 (Rep 1 (Some 2) digit), Lit CHR ''/'', Group 2 (Rep 1 (Some 2) digit),
      Lit CHR ''/'', Group 3 (Rep 2 (Some 4) digit), WordB]\<rparr>"

definition ordinalDayPattern :: rx where
  "ordinalDayPattern =
     \<lparr>rx_source = bs @ ''b('' @ bs @ ''d{1,2})(st|nd|rd|th)'' @ bs @ ''s+(january|february|march|april|may|june|july|august|september|october|november|december)'',
      ignoreCase = True,
      body = seqs [WordB, Group 1 (Rep 1 (Some 2) digit), Group 2 (words ordinalSuffixes), Plus space,
      Group 3 (words monthNames)]\<rparr>"

definition extractDateInfo_datePatterns :: "rx list" where
  "extractDateInfo_datePatterns = [monthDayPattern, slashDatePattern, ordinalDayPattern]"

text \<open>
  The date string handed to the date parser for one match; \<open>None\<close> is the TypeError of
  \<open>match[3].length\<close> on an absent group, which the inner \<open>try\<close> swallows.
\<close>

definition dateStrOf :: "Clock \<Rightarrow> rx \<Rightarrow> string option list \<Rightarrow> string option" where
  "dateStrOf clock pattern m =
     (if includesStr (rx_source pattern) ''january|february'' then
        (let month = grp m 1; day = grp m 2;
             year = (if truthy (grp m 3) then showValue (grp m 3) else showInt (nowYear clock))
         in Some (showValue month @ '' '' @ showValue day @ '', '' @ year))
      else if includesStr (rx_source pattern) (bs @ ''d{1,2}'' @ bs @ ''/'') then
        (let month = grp m 1; day = grp m 2
         in case grp m 3 of
              None \<Rightarrow> None
            | Some y \<Rightarrow>
                (let year = (if length y = 2 then ''20'' @ y else y)
                 in Some (showValue month @ ''/'' @ showValue day @ ''/'' @ year)))
      else
        (let day = grp m 1; month = grp m 3; year = showInt (nowYear clock)
         in Some (showValue month @ '' '' @ showValue day @ '', '' @ year)))"

fun extractDateInfo_loop :: "Clock \<Rightarrow> string \<Rightarrow> rx list \<Rightarrow> DateInfo" where
  "extractDateInfo_loop clock text [] = \<lparr>startDate = nowIso clock, endDate = nowIso clock\<rparr>"
| "extractDateInfo_loop clock text (pattern # patterns) =
     (case match text pattern of
        None \<Rightarrow> extractDateInfo_loop clock text patterns
      | Some m \<Rightarrow>
          (case dateStrOf clock pattern m of
             None \<Rightarrow> extractDateInfo_loop clock text patterns
           | Some dateStr \<Rightarrow>
               (case parseDate clock dateStr of
                  None \<Rightarrow> extractDateInfo_loop clock text patterns
                | Some isoDate \<Rightarrow> \<lparr>startDate = isoDate, endDate = isoDate\<rparr>)))"

definition extractDateInfo :: "Clock \<Rightarrow> string \<Rightarrow> DateInfo" where
  "extractDateInfo clock text = extractDateInfo_loop clock text extractDateInfo_datePatterns"

definition venueNameChars :: "citem list" where
  "venueNameChars = [Range CHR ''a'' CHR ''z'', Range CHR ''A'' CHR ''Z'', Space, Single CHR ''&'',
                     Single (CHR 0x27), Single CHR ''-'']"

definition venueHead :: regex where
  "venueHead = Seq (Class False [Range CHR ''A'' CHR ''Z'']) (Plus (Class False venueNameChars))"

definition atVenuePattern :: rx where
  "atVenuePattern =
     \<lparr>rx_source = bs @ ''b(?:at|@)'' @ bs @ ''s+([A-Z][a-zA-Z'' @ bs @ ''s&'' @ [CHR 0x27] @ ''-]+(?:Center|Centre|Hall|Theatre|Theater|Auditorium|Stadium|Arena|Club|Bar|Restaurant|Hotel|Museum|Gallery|Park))'' @ bs @ ''b'',
      ignoreCase = True,
      body = seqs [WordB, alts [str ''at'', Lit CHR ''@''], Plus space,
      Group 1 (Seq venueHead (words [''Center'', ''Centre'', ''Hall'', ''Theatre'', ''Theater'',
      ''Auditorium'', ''Stadium'', ''Arena'', ''Club'', ''Bar'', ''Restaurant'', ''Hotel'',
      ''Museum'', ''Gallery'', ''Park''])),
      WordB]\<rparr>"

definition bareVenuePattern :: rx where
  "bareVenuePattern =
     \<lparr>rx_source = bs @ ''b([A-Z][a-zA-Z'' @ bs @ ''s&'' @ [CHR 0x27] @ ''-]+(?:Center|Centre|Hall|Theatre|Theater|Auditorium|Stadium|Arena))'' @ bs @ ''b'',
      ignoreCase = True,
      body = seqs [WordB,
      Group 1 (Seq venueHead (words [''Center'', ''Centre'', ''Hall'', ''Theatre'', ''Theater'',
      ''Auditorium'', ''Stadium'', ''Arena''])),
      WordB]\<rparr>"

definition labelledVenuePattern :: rx where
  "labelledVenuePattern =
     \<lparr>rx_source = bs @ ''b(?:venue|location):'' @ bs @ ''s*([A-Z][a-zA-Z'' @ bs @ ''s&'' @ [CHR 0x27] @ ''-]+)'',
      ignoreCase = True,
      body = seqs [WordB, alts [str ''venue'', str ''location''], Lit CHR '':'', Star space,
      Group 1 venueHead]\<rparr>"

definition extractVenue_venuePatterns :: "rx list" where
  "extractVenue_venuePatterns = [atVenuePattern, bareVenuePattern, labelledVenuePattern]"

fun extractVenue_loop :: "string \<Rightarrow> rx list \<Rightarrow> string" where
  "extractVenue_loop text [] = ''See Event Page''"
| "extractVenue_loop text (pattern # patterns) =
     (case match text pattern of
        None \<Rightarrow> extractVenue_loop text patterns
      | Some m \<Rightarrow>
          (if truthy (grp m 1) then trim (showValue (grp m 1))
           else extractVenue_loop text patterns))"

definition extractVenue :: "string \<Rightarrow> string" where
  "extractVenue text = extractVenue_loop text extractVenue_venuePatterns"

definition ticketDomains :: "string list" where
  "ticketDomains = [''eventbrite.com'', ''ticketmaster.com'', ''universe.com'', ''brownpapertickets.com'']"

definition urlPattern :: rx where
  "urlPattern =
     \<lparr>rx_source = ''https?:'' @ bs @ ''/'' @ bs @ ''/[^'' @ bs @ ''s]+'',
      ignoreCase = False,
      body = seqs [str ''http'', Opt (Lit CHR ''s''), str ''://'', Plus (Class True [Space])]\<rparr>"

definition hasTicketDomain :: "string \<Rightarrow> bool" where
  "hasTicketDomain url = list_ex (\<lambda>domain. includesStr url domain) ticketDomains"

definition extractTicketUrl :: "string option \<Rightarrow> string \<Rightarrow> string option" where
  "extractTicketUrl eventUrl snippet =
     (if list_ex (\<lambda>domain. truthy eventUrl \<and> includesStr (orEmpty eventUrl) domain) ticketDomains
      then eventUrl
      else List.find hasTicketDomain (matchAll snippet urlPattern))"


section \<open>Confidence scorer\<close>

definition eventDomains :: "string list" where
  "eventDomains = [''eventbrite.com'', ''meetup.com'', ''facebook.com/events'', ''lu.ma'']"

definition calculateConfidence_eventKeywords :: "string list" where
  "calculateConfidence_eventKeywords = [''event'', ''festival'', ''concert'', ''conference'', ''workshop'']"

definition scoreText :: "RawResult \<Rightarrow> string" where
  "scoreText result =
     toLowerCase (orEmpty (r_title result) @ '' '' @ orEmpty (r_snippet result) @ '' '' @
                  orEmpty (r_link result))"

definition calculateConfidence :: "RawResult \<Rightarrow> string \<Rightarrow> rat" where
  "calculateConfidence result category =
     (let text = scoreText result;
          confidence = d0_6;
          confidence = (if list_ex (\<lambda>domain. includesStr text domain) eventDomains
                        then fadd confidence d0_2 else confidence);
          confidence = (if includesStr text (toLowerCase category)
                        then fadd confidence d0_1 else confidence);
          confidence = (if list_ex (\<lambda>keyword. includesStr text keyword) calculateConfidence_eventKeywords
                        then fadd confidence d0_1 else confidence);
          confidence = (if containsDatePattern text
                        then fadd confidence d0_05 else confidence)
      in min confidence 1)"

section \<open>Event normalizer\<close>

definition eventIdOf :: "string \<Rightarrow> string" where
  "eventIdOf title =
     ''serper_'' @
     toLowerCase (map (\<lambda>c. if class_mem False [Range CHR ''a'' CHR ''z'', Range CHR ''A'' CHR ''Z'',
                                                  Range CHR ''0'' CHR ''9''] c
                           then c else CHR ''_'') title)"

definition transformEvent :: "Clock \<Rightarrow> RawResult \<Rightarrow> string \<Rightarrow> Event option" where
  "transformEvent clock serperResult category =
     (let title = orElse (r_title serperResult) (r_question serperResult)
      in if \<not> truthy title then None
         else
           (let title = orEmpty title;
                snippet = orEmpty (r_snippet serperResult);
                dateInfo = extractDateInfo clock (title @ '' '' @ snippet);
                venue = extractVenue (title @ '' '' @ snippet);
                eventId = eventIdOf title
            in Some \<lparr>ev_id = eventId,
                     ev_title = title,
                     ev_description =
                       (if snippet \<noteq> [] then snippet
                        else ''Event details available on the event page.''),
                     ev_category = category,
                     ev_venue = venue,
                     ev_location = venue,
                     ev_startDate = startDate dateInfo,
                     ev_endDate = endDate dateInfo,
                     ev_eventUrl = r_link serperResult,
                     ev_ticketUrl = extractTicketUrl (r_link serperResult) snippet,
                     ev_source = ''serper_api'',
                     ev_confidence = calculateConfidence serperResult category,
                     ev_thumbnail = None\<rparr>))"

section \<open>Pipeline orchestrator\<close>

datatype 'a promise = Rejected string | Resolved 'a

datatype relatedSearch = RelatedObject "string option" | RelatedString string

record ProviderData =
  d_error :: "string option"
  d_organic :: "RawResult list option"
  d_peopleAlsoAsk :: "RawResult list option"
  d_relatedSearches :: "relatedSearch list option"

record Response =
  resp_ok :: bool
  resp_status :: int
  resp_text :: "string promise"
  resp_json :: "ProviderData promise"

record Payload =
  p_q :: string
  p_gl :: string
  p_hl :: string
  p_num :: int
  p_type :: string

text \<open>
  The host of one invocation: the clock, the transport (\<open>h_fetch\<close>, the \<open>fetch\<close> of the payload, which
  rejects on a network failure and on the abort at the timeout), and the readings of
  \<open>Date.now()\<close> at the start, after the response and in the handler.
\<close>

record Host =
  h_clock :: Clock
  h_fetch :: "Payload \<Rightarrow> Response promise"
  t_start :: int
  t_response :: int
  t_catch :: int

record Metadata =
  totalOrganic :: nat
  relatedSearches :: "relatedSearch list"

record Envelope =
  success :: bool
  error :: "string option"
  events :: "Event list"
  count :: nat
  processingTime :: int
  source :: string
  metadata :: "Metadata option"

definition orNil :: "'a list option \<Rightarrow> 'a list" where
  "orNil v = (case v of None \<Rightarrow> [] | Some xs \<Rightarrow> xs)"

definition relatedTerm :: "relatedSearch \<Rightarrow> relatedSearch" where
  "relatedTerm r = (case r of RelatedObject q \<Rightarrow> (if truthy q then RelatedString (orEmpty q) else r)
                           | RelatedString s \<Rightarrow> r)"

definition failure :: "Host \<Rightarrow> string \<Rightarrow> Envelope" where
  "failure host message =
     \<lparr>success = False, error = Some message, events = [], count = 0,
      processingTime = t_catch host - t_start host, source = ''serper'', metadata = None\<rparr>"

definition buildPayload :: "string \<Rightarrow> string \<Rightarrow> int \<Rightarrow> Payload" where
  "buildPayload category location limit =
     (let query = category @ '' events in '' @ location @ '' 2025''
      in \<lparr>p_q = query, p_gl = ''us'', p_hl = ''en'', p_num = min (limit * 2) 20, p_type = ''search''\<rparr>)"

definition transformAll :: "Clock \<Rightarrow> string \<Rightarrow> RawResult list \<Rightarrow> Event list" where
  "transformAll clk category results =
     List.map_filter (\<lambda>result. transformEvent clk result category) results"

text \<open>
  The part of the \<open>try\<close> block that can throw: \<open>Inl message\<close> is an error thrown
  (or a rejection awaited) with that \<open>message\<close>, which the \<open>catch\<close> of
  \<open>searchEvents\<close> receives; \<open>Inr data\<close> is the parsed provider response.
\<close>

definition providerCall :: "Host \<Rightarrow> Payload \<Rightarrow> string + ProviderData" where
  "providerCall host payload =
     (case h_fetch host payload of
        Rejected message \<Rightarrow> Inl message
      | Resolved response \<Rightarrow>
          (if \<not> resp_ok response then
             (case resp_text response of
                Rejected message \<Rightarrow> Inl message
              | Resolved errorBody \<Rightarrow>
                  Inl (''HTTP '' @ showInt (resp_status response) @ '': '' @ errorBody))
           else
             (case resp_json response of
                Rejected message \<Rightarrow> Inl message
              | Resolved data \<Rightarrow>
                  (if truthy (d_error data) then Inl (orEmpty (d_error data)) else Inr data))))"

definition limitOrDefault :: "int option \<Rightarrow> int" where
  "limitOrDefault limitArg = (case limitArg of None \<Rightarrow> 10 | Some n \<Rightarrow> n)"

definition searchEvents :: "Host \<Rightarrow> string \<Rightarrow> string \<Rightarrow> int option \<Rightarrow> Envelope" where
  "searchEvents host category location limitArg =
     (let limit = limitOrDefault limitArg;
          payload = buildPayload category location limit
      in case providerCall host payload of
           Inl message \<Rightarrow> failure host message
         | Inr data \<Rightarrow>
             (let organicResults = orNil (d_organic data);
                  peopleAlsoAsk = orNil (d_peopleAlsoAsk data);
                  related = orNil (d_relatedSearches data);
                  eventResults = filterEventResults (organicResults @ peopleAlsoAsk);
                  transformedEvents =
                    transformAll (h_clock host) category (slice0 eventResults limit)
              in \<lparr>success = True, error = None, events = transformedEvents,
                  count = length transformedEvents,
                  processingTime = t_response host - t_start host,
                  source = ''serper'',
                  metadata = Some \<lparr>totalOrganic = length organicResults,
                                   relatedSearches = slice0 (map relatedTerm related) 5\<rparr>\<rparr>))"


section \<open>The combined text as the specification words it\<close>

text \<open>
  The specification calls the concatenation of the textual fields of a raw result its
  combined text. This definition follows its words, for comparison with the text that
  \<open>filterEventResults\<close> builds.
\<close>

definition spec_combinedText :: "RawResult \<Rightarrow> string" where
  "spec_combinedText result =
     orEmpty (r_title result) @ '' '' @ orEmpty (r_snippet result) @ '' '' @
     orEmpty (r_link result) @ '' '' @ orEmpty (r_question result)"


section \<open>The ticket URL as the specification words it\<close>

text \<open>
  The specification speaks of the domain of a URL being in the allow-list. These definitions
  follow its words, for comparison with \<open>extractTicketUrl\<close>: the domain is the host
  between the scheme and the path, and it is allowed when it is an allow-listed domain or a
  subdomain of one.
\<close>

fun afterScheme :: "string \<Rightarrow> string" where
  "afterScheme [] = []"
| "afterScheme (c # cs) = (if startsWith (c # cs) ''://'' then drop 3 (c # cs) else afterScheme cs)"

definition spec_urlDomain :: "string \<Rightarrow> string" where
  "spec_urlDomain url = takeWhile (\<lambda>c. c \<notin> set ''/?#:'') (afterScheme url)"

definition endsWith :: "string \<Rightarrow> string \<Rightarrow> bool" where
  "endsWith s suffix = startsWith (rev s) (rev suffix)"

definition spec_domainAllowed :: "string \<Rightarrow> bool" where
  "spec_domainAllowed url =
     list_ex (\<lambda>domain. spec_urlDomain url = domain \<or> endsWith (spec_urlDomain url) (''.'' @ domain))
       ticketDomains"

definition spec_extractTicketUrl :: "string option \<Rightarrow> string \<Rightarrow> string option" where
  "spec_extractTicketUrl eventUrl snippet =
     (if truthy eventUrl \<and> spec_domainAllowed (orEmpty eventUrl) then eventUrl
      else List.find spec_domainAllowed (matchAll snippet urlPattern))"


section \<open>Sample inputs\<close>

definition sampleClock :: Clock where
  "sampleClock = \<lparr>nowIso = ''2026-01-15T09:30:00.000Z'', nowYear = 2026, parseDate = (\<lambda>s. None)\<rparr>"

definition dateOnlyResult :: RawResult where
  "dateOnlyResult = \<lparr>r_title = Some ''Doors open March 5'', r_snippet = None,
                      r_link = Some ''https://example.org/a'', r_question = None\<rparr>"

definition untitledResult :: RawResult where
  "untitledResult = \<lparr>r_title = None, r_snippet = Some ''Concert tickets on sale'',
                      r_link = Some ''https://example.org/b'', r_question = None\<rparr>"

definition concertResult :: RawResult where
  "concertResult = \<lparr>r_title = Some ''Spring concert'', r_snippet = None,
                     r_link = None, r_question = None\<rparr>"

definition sampleData :: ProviderData where
  "sampleData = \<lparr>d_error = None, d_organic = Some [dateOnlyResult, concertResult],
                  d_peopleAlsoAsk = None, d_relatedSearches = None\<rparr>"

definition sampleHost :: Host where
  "sampleHost = \<lparr>h_clock = sampleClock,
                  h_fetch = (\<lambda>payload. Resolved \<lparr>resp_ok = True, resp_status = 200,
                                                  resp_text = Resolved [],
                                                  resp_json = Resolved sampleData\<rparr>),
                  t_start = 0, t_response = 120, t_catch = 120\<rparr>"


definition noVenueText :: string where
  "noVenueText = ''Nothing scheduled yet''"

definition hallText :: string where
  "hallText = ''Live at the Royal Albert Hall tonight''"

definition redirectUrl :: string where
  "redirectUrl = ''https://example.com/out?to=eventbrite.com''"

definition ticketSnippet :: string where
  "ticketSnippet = ''Info https://example.org/x tickets https://www.ticketmaster.com/e/42 today''"

definition scenarioResult :: RawResult where
  "scenarioResult = \<lparr>r_title = Some ''Jazz Festival at Blue Note on March 15, 2025'',
                      r_snippet = Some ''Tickets available on eventbrite.com'',
                      r_link = Some ''https://eventbrite.com/jazz'', r_question = None\<rparr>"

definition scenarioText :: string where
  "scenarioText =
     ''Jazz Festival at Blue Note on March 15, 2025 Tickets available on eventbrite.com''"

definition ordinalText :: string where
  "ordinalText = ''Party on 3rd march''"

definition slashText :: string where
  "slashText = ''Doors 3/14/2025''"


definition venueOnlyResult :: RawResult where
  "venueOnlyResult = \<lparr>r_title = Some ''Meet at Blue Note'', r_snippet = None,
                       r_link = None, r_question = None\<rparr>"


section \<open>Evaluation of characters\<close>

lemma toLowerChar_code [code]:
  "toLowerChar (Char b0 b1 b2 b3 b4 b5 b6 b7) =
     (if isUpper (Char b0 b1 b2 b3 b4 b5 b6 b7) \<or> isUpperLatin1 (Char b0 b1 b2 b3 b4 b5 b6 b7)
      then Char b0 b1 b2 b3 b4 True b6 b7 else Char b0 b1 b2 b3 b4 b5 b6 b7)"
  by (cases b0; cases b1; cases b2; cases b3; cases b4; cases b5; cases b6; cases b7;
      simp add: toLowerChar_def isUpper_def isUpperLatin1_def char_of_def bit_Suc_0_iff)

lemma toUpperChar_code [code]:
  "toUpperChar (Char b0 b1 b2 b3 b4 b5 b6 b7) =
     (if isLower (Char b0 b1 b2 b3 b4 b5 b6 b7) \<or> isLowerLatin1 (Char b0 b1 b2 b3 b4 b5 b6 b7)
      then Char b0 b1 b2 b3 b4 False b6 b7 else Char b0 b1 b2 b3 b4 b5 b6 b7)"
  by (cases b0; cases b1; cases b2; cases b3; cases b4; cases b5; cases b6; cases b7;
      simp add: toUpperChar_def isLower_def isLowerLatin1_def char_of_def bit_Suc_0_iff)


section \<open>Properties of the matcher\<close>

lemma follows_refl: "wf_state L s \<Longrightarrow> follows L False ns s s"
  by (simp add: follows_def)

lemma follows_trans:
  "follows L b1 ns1 s s' \<Longrightarrow> follows L b2 ns2 s' s'' \<Longrightarrow> follows L (b1 \<or> b2) (ns1 @ ns2) s s''"
  by (auto simp: follows_def)

lemma follows_weaken:
  "follows L b ns s s' \<Longrightarrow> (b' \<longrightarrow> b) \<Longrightarrow> set ns \<subseteq> set ns' \<Longrightarrow> follows L b' ns' s s'"
  by (auto simp: follows_def)

lemma follows_wf: "follows L b ns s s' \<Longrightarrow> wf_state L s'"
  by (simp add: follows_def)

lemma step_follows:
  assumes "wf_state L s" and "step ok k s = Some res"
  shows "\<exists>s'. follows L True [] s s' \<and> k s' = Some res"
proof -
  obtain i p rs c where s: "s = (i, p, rs, c)" by (cases s) auto
  with assms(2) obtain x xs where rs: "rs = x # xs" by (cases rs) auto
  from assms(2) s rs have k: "ok x" "k (i + 1, Some x, xs, c) = Some res"
    by (auto split: if_splits)
  from assms(1) s rs have "follows L True [] s (i + 1, Some x, xs, c)"
    by (auto simp: follows_def wf_state_def)
  with k show ?thesis by blast
qed

lemma map_of_clearcaps:
  "n \<notin> set ns \<Longrightarrow> map_of (filter (\<lambda>e. fst e \<notin> set ns) c) n = map_of c n"
  by (induction c) auto

lemma clearcaps_follows: "wf_state L s \<Longrightarrow> follows L False ns s (clearcaps ns s)"
  by (cases s) (auto simp: follows_def wf_state_def map_of_clearcaps)

lemma sound_bodyD:
  "sound_body L ns f \<Longrightarrow> wf_state L s \<Longrightarrow> f k s = Some res \<Longrightarrow>
     \<exists>s'. follows L False ns s s' \<and> k s' = Some res"
  unfolding sound_body_def by blast

lemma rep_follows:
  "sound_body L ns f \<Longrightarrow> wf_state L s \<Longrightarrow> rep f lo hi fuel k s = Some res \<Longrightarrow>
     \<exists>s'. follows L False ns s s' \<and> k s' = Some res"
proof (induction f lo hi fuel k s arbitrary: res rule: rep.induct)
  case (1 f lo hi fuel k i p r c)
  let ?s = "(i, p, r, c)"
  show ?case
  proof (cases "hi = Some 0")
    case True
    with "1.prems"(3) have "k ?s = Some res" by simp
    with follows_refl[OF "1.prems"(2)] show ?thesis by blast
  next
    case bounded: False
    show ?thesis
    proof (cases lo)
      case (Suc lo')
      with bounded "1.prems"(3) have "f (rep f lo' (dec hi) fuel k) ?s = Some res" by simp
      from sound_bodyD[OF "1.prems"(1,2) this]
      obtain s1 where s1: "follows L False ns ?s s1" "rep f lo' (dec hi) fuel k s1 = Some res"
        by blast
      from "1.IH"(2)[OF bounded Suc "1.prems"(1) follows_wf[OF s1(1)] s1(2)]
      obtain s2 where s2: "follows L False ns s1 s2" "k s2 = Some res" by blast
      have "follows L False ns ?s s2"
        by (rule follows_weaken[OF follows_trans[OF s1(1) s2(1)]]) auto
      with s2(2) show ?thesis by blast
    next
      case 0
      show ?thesis
      proof (cases fuel)
        case Nil
        with bounded 0 "1.prems"(3) have "k ?s = Some res" by simp
        with follows_refl[OF "1.prems"(2)] show ?thesis by blast
      next
        case (Cons x fuel')
        let ?k' = "\<lambda>s'. if i < endIndex s' then rep f 0 (dec hi) fuel' k s' else None"
        show ?thesis
        proof (cases "f ?k' ?s")
          case None
          with bounded 0 Cons "1.prems"(3) have "k ?s = Some res" by simp
          with follows_refl[OF "1.prems"(2)] show ?thesis by blast
        next
          case (Some res')
          with bounded 0 Cons "1.prems"(3) have eq: "f ?k' ?s = Some res" by simp
          from sound_bodyD[OF "1.prems"(1,2) eq]
          obtain s1 where s1: "follows L False ns ?s s1" "?k' s1 = Some res" by blast
          from s1(2) have lt: "i < endIndex s1"
            and r1: "rep f 0 (dec hi) fuel' k s1 = Some res"
            by (simp_all split: if_splits)
          from "1.IH"(1)[OF bounded 0 Cons lt "1.prems"(1) follows_wf[OF s1(1)] r1]
          obtain s2 where s2: "follows L False ns s1 s2" "k s2 = Some res" by blast
          have "follows L False ns ?s s2"
            by (rule follows_weaken[OF follows_trans[OF s1(1) s2(1)]]) auto
          with s2(2) show ?thesis by blast
        qed
      qed
    qed
  qed
qed

lemma rmatch_follows:
  "wf_state L s \<Longrightarrow> rmatch ci r k s = Some res \<Longrightarrow>
     \<exists>s'. follows L (nonempty r) (groups r) s s' \<and> k s' = Some res"
proof (induction ci r k s arbitrary: res rule: rmatch.induct)
  case (1 ci k s)
  from "1.prems"(2) have "k s = Some res" by simp
  with follows_refl[OF "1.prems"(1)] show ?case by (simp del: split_paired_Ex) blast
next
  case (2 ci c k s)
  from "2.prems"(2) have "step (lit_eq ci c) k s = Some res" by simp
  from step_follows[OF "2.prems"(1) this] show ?case by (simp del: split_paired_Ex)
next
  case (3 ci neg items k s)
  from "3.prems"(2) have "step (\<lambda>x. class_mem ci items x \<noteq> neg) k s = Some res" by simp
  from step_follows[OF "3.prems"(1) this] show ?case by (simp del: split_paired_Ex)
next
  case (4 ci k s)
  from "4.prems"(2) have "k s = Some res" by (simp split: if_splits)
  with follows_refl[OF "4.prems"(1)] show ?case by (simp del: split_paired_Ex) blast
next
  case (5 ci a b k s)
  from "5.prems" have "rmatch ci a (rmatch ci b k) s = Some res" by simp
  from "5.IH"(2)[OF "5.prems"(1) this]
  obtain s1 where s1: "follows L (nonempty a) (groups a) s s1" "rmatch ci b k s1 = Some res"
    by blast
  from "5.IH"(1)[OF follows_wf[OF s1(1)] s1(2)]
  obtain s2 where s2: "follows L (nonempty b) (groups b) s1 s2" "k s2 = Some res" by blast
  from follows_trans[OF s1(1) s2(1)] s2(2) show ?case by (simp del: split_paired_Ex) blast
next
  case (6 ci a b k s)
  show ?case
  proof (cases "rmatch ci a k s")
    case None
    with "6.prems" have "rmatch ci b k s = Some res" by simp
    from "6.IH"(2)[OF None "6.prems"(1) this]
    obtain s1 where s1: "follows L (nonempty b) (groups b) s s1" "k s1 = Some res" by blast
    have "follows L (nonempty (Alt a b)) (groups (Alt a b)) s s1"
      by (rule follows_weaken[OF s1(1)]) auto
    with s1(2) show ?thesis by blast
  next
    case (Some res')
    with "6.prems" have "rmatch ci a k s = Some res" by simp
    from "6.IH"(1)[OF "6.prems"(1) this]
    obtain s1 where s1: "follows L (nonempty a) (groups a) s s1" "k s1 = Some res" by blast
    have "follows L (nonempty (Alt a b)) (groups (Alt a b)) s s1"
      by (rule follows_weaken[OF s1(1)]) auto
    with s1(2) show ?thesis by blast
  qed
next
  case (7 ci n r k s)
  from "7.prems" have "rmatch ci r (\<lambda>s'. k (setcap n (endIndex s) s')) s = Some res" by simp
  from "7.IH"[OF "7.prems"(1) this]
  obtain s1 where s1: "follows L (nonempty r) (groups r) s s1"
      "k (setcap n (endIndex s) s1) = Some res" by blast
  have "follows L (nonempty r) (n # groups r) s (setcap n (endIndex s) s1)"
    using s1(1) by (cases s1) (auto simp: follows_def wf_state_def)
  with s1(2) show ?case by (simp del: split_paired_Ex) blast
next
  case (8 ci lo hi r k i p rs c)
  let ?f = "\<lambda>k' s'. rmatch ci r k' (clearcaps (groups r) s')"
  have "\<exists>s'. follows L False (groups r) s s' \<and> k' s' = Some res'"
    if "wf_state L s" "?f k' s = Some res'" for k' s res'
  proof -
    from clearcaps_follows[OF that(1)] have c: "follows L False (groups r) s (clearcaps (groups r) s)" .
    from "8.IH"[OF follows_wf[OF c] that(2)]
    obtain s1 where s1: "follows L (nonempty r) (groups r) (clearcaps (groups r) s) s1"
        "k' s1 = Some res'"
      by blast
    have "follows L False (groups r) s s1"
      by (rule follows_weaken[OF follows_trans[OF c s1(1)]]) auto
    with s1(2) show ?thesis by blast
  qed
  then have F: "sound_body L (groups r) ?f"
    unfolding sound_body_def by blast
  from "8.prems"(2) have "rep ?f lo hi rs k (i, p, rs, c) = Some res"
    by (simp del: rep.simps)
  from rep_follows[OF F "8.prems"(1) this]
  show ?case by (simp del: split_paired_Ex)
qed

lemma captured_follows:
  "captured L n s \<Longrightarrow> follows L b ns s s' \<Longrightarrow> n \<notin> set ns \<Longrightarrow> captured L n s'"
  by (auto simp: captured_def follows_def)

lemma captured_setcap_same:
  "wf_state L s' \<Longrightarrow> 0 \<le> i \<Longrightarrow> i < endIndex s' \<Longrightarrow> captured L n (setcap n i s')"
  by (cases s') (auto simp: captured_def wf_state_def)

lemma captured_setcap_other:
  "captured L n s' \<Longrightarrow> m \<noteq> n \<Longrightarrow> captured L n (setcap m i s')"
  by (cases s') (auto simp: captured_def)

lemma wf_setcap: "wf_state L s' \<Longrightarrow> wf_state L (setcap m i s')"
  by (cases s') (auto simp: wf_state_def)

lemma rmatch_binds:
  "wf_state L s \<Longrightarrow> binds n r \<Longrightarrow> rmatch ci r k s = Some res \<Longrightarrow>
     \<exists>s'. wf_state L s' \<and> captured L n s' \<and> k s' = Some res"
proof (induction r arbitrary: k s res)
  case (Seq a b)
  from Seq.prems(3) have run: "rmatch ci a (rmatch ci b k) s = Some res" by simp
  from Seq.prems(2) consider "binds n a" "n \<notin> set (groups b)" | "binds n b" by auto
  then show ?case
  proof cases
    case 1
    from Seq.IH(1)[OF Seq.prems(1) 1(1) run]
    obtain s1 where s1: "wf_state L s1" "captured L n s1" "rmatch ci b k s1 = Some res" by blast
    from rmatch_follows[OF s1(1) s1(3)]
    obtain s2 where s2: "follows L (nonempty b) (groups b) s1 s2" "k s2 = Some res" by blast
    from captured_follows[OF s1(2) s2(1) 1(2)] follows_wf[OF s2(1)] s2(2) show ?thesis by blast
  next
    case 2
    from rmatch_follows[OF Seq.prems(1) run]
    obtain s1 where s1: "follows L (nonempty a) (groups a) s s1" "rmatch ci b k s1 = Some res"
      by blast
    from Seq.IH(2)[OF follows_wf[OF s1(1)] 2 s1(2)] show ?thesis .
  qed
next
  case (Alt a b)
  from Alt.prems(2) have ba: "binds n a" and bb: "binds n b" by simp_all
  show ?case
  proof (cases "rmatch ci a k s")
    case None
    with Alt.prems(3) have "rmatch ci b k s = Some res" by simp
    from Alt.IH(2)[OF Alt.prems(1) bb this] show ?thesis .
  next
    case (Some res')
    with Alt.prems(3) have "rmatch ci a k s = Some res" by simp
    from Alt.IH(1)[OF Alt.prems(1) ba this] show ?thesis .
  qed
next
  case (Group m r)
  from Group.prems(3)
  have run: "rmatch ci r (\<lambda>s'. k (setcap m (endIndex s) s')) s = Some res" by simp
  from Group.prems(1) have i0: "0 \<le> endIndex s" by (simp add: wf_state_def)
  show ?case
  proof (cases "m = n")
    case True
    with Group.prems(2) have ne: "nonempty r" by simp
    from rmatch_follows[OF Group.prems(1) run]
    obtain s1 where s1: "follows L (nonempty r) (groups r) s s1"
        "k (setcap m (endIndex s) s1) = Some res" by blast
    from s1(1) ne have lt: "endIndex s < endIndex s1" by (simp add: follows_def)
    from captured_setcap_same[OF follows_wf[OF s1(1)] i0 lt] wf_setcap[OF follows_wf[OF s1(1)]]
      s1(2) True
    show ?thesis by blast
  next
    case False
    with Group.prems(2) have "binds n r" by simp
    from Group.IH[OF Group.prems(1) this run]
    obtain s1 where s1: "wf_state L s1" "captured L n s1"
        "k (setcap m (endIndex s) s1) = Some res" by blast
    from captured_setcap_other[OF s1(2) False] wf_setcap[OF s1(1)] s1(3)
    show ?thesis by blast
  qed
qed simp_all

lemma exec_at_binds:
  assumes "0 \<le> i" and "i + int (length rs) = L" and "binds n (body re)"
    and "exec_at re i p rs = Some (b, e, c)"
  shows "\<exists>gb ge. map_of c n = Some (gb, ge) \<and> 0 \<le> gb \<and> gb < ge \<and> ge \<le> L"
proof -
  from assms(1,2) have wf: "wf_state L (i, p, rs, [])" by (simp add: wf_state_def)
  from assms(4) obtain p' r' where "rmatch (ignoreCase re) (body re) Some (i, p, rs, []) = Some (e, p', r', c)"
    by (auto split: option.splits)
  from rmatch_binds[OF wf assms(3) this] show ?thesis
    by (auto simp: captured_def)
qed

lemma exec_from_binds:
  "0 \<le> i \<Longrightarrow> i + int (length rs) = L \<Longrightarrow> binds n (body re) \<Longrightarrow>
   exec_from re i p rs = Some (b, e, c) \<Longrightarrow>
     \<exists>gb ge. map_of c n = Some (gb, ge) \<and> 0 \<le> gb \<and> gb < ge \<and> ge \<le> L"
proof (induction rs arbitrary: i p)
  case Nil
  then show ?case using exec_at_binds[of i "[]" L n re p b e c] by simp
next
  case (Cons x xs)
  show ?case
  proof (cases "exec_at re i p (x # xs)")
    case None
    with Cons.prems(4) have "exec_from re (i + 1) (Some x) xs = Some (b, e, c)" by simp
    from Cons.IH[OF _ _ Cons.prems(3) this] Cons.prems(1,2) show ?thesis by simp
  next
    case (Some m)
    with Cons.prems(4) have "exec_at re i p (x # xs) = Some (b, e, c)" by simp
    from exec_at_binds[OF Cons.prems(1,2,3) this] show ?thesis .
  qed
qed

lemma substring_nonempty:
  "0 \<le> b \<Longrightarrow> b < e \<Longrightarrow> e \<le> int (length text) \<Longrightarrow> substring text b e \<noteq> []"
  by (auto simp: substring_def)

lemma match_binds:
  assumes "match text re = Some m" and "binds n (body re)"
    and "1 \<le> n" and "n \<le> length (groups (body re))"
  shows "\<exists>b e. 0 \<le> b \<and> b < e \<and> e \<le> int (length text) \<and> grp m n = Some (substring text b e)"
proof -
  from assms(1) obtain b e c where ex: "exec_from re 0 None text = Some (b, e, c)"
    and m: "m = matchArray text re (b, e, c)"
    by (auto simp: match_def)
  from exec_from_binds[OF _ _ assms(2) ex, of "int (length text)"]
  obtain gb ge where g: "map_of c n = Some (gb, ge)" "0 \<le> gb" "gb < ge" "ge \<le> int (length text)"
    by auto
  let ?G = "length (groups (body re))"
  let ?f = "\<lambda>n. case map_of c n of None \<Rightarrow> None | Some (gb, ge) \<Rightarrow> Some (substring text gb ge)"
  have m': "m = Some (substring text b e) # map ?f [1 ..< Suc ?G]"
    unfolding m matchArray_def by simp
  from assms(3,4) have "m ! n = map ?f [1 ..< Suc ?G] ! (n - 1)"
    unfolding m' by (simp add: nth_Cons' del: upt_Suc)
  also from assms(3,4) have "\<dots> = ?f ([1 ..< Suc ?G] ! (n - 1))"
    by (intro nth_map) (simp del: upt_Suc)
  also from assms(3,4) have "[1 ..< Suc ?G] ! (n - 1) = n"
    by (simp add: nth_upt del: upt_Suc)
  finally have "m ! n = Some (substring text gb ge)" using g(1) by simp
  moreover from assms(4) have "n < length m" unfolding m' by (simp del: upt_Suc)
  ultimately have "grp m n = Some (substring text gb ge)" by (simp add: grp_def)
  with g(2,3,4) show ?thesis by blast
qed


subsection \<open>The fuel of a repetition is enough\<close>

text \<open>
  A repetition is defined with the rest of the input as fuel for its optional iterations.
  The lemmas below show that the fuel never runs out: a repetition obeys the unfolding laws
  of the language definition (stop when the maximum is 0; run a mandatory iteration and
  continue with the minimum and maximum decreased; otherwise try one more iteration that
  consumes input, and fall back to the continuation), in which no fuel appears.
\<close>

lemma agreeD: "agree L i k1 k2 \<Longrightarrow> wf_state L s' \<Longrightarrow> i \<le> endIndex s' \<Longrightarrow> k1 s' = k2 s'"
  unfolding agree_def by blast

lemma agree_mono: "agree L i k1 k2 \<Longrightarrow> i \<le> j \<Longrightarrow> agree L j k1 k2"
  unfolding agree_def by (meson order_trans)

lemma local_bodyD:
  "local_body L f \<Longrightarrow> wf_state L s \<Longrightarrow> agree L (endIndex s) k1 k2 \<Longrightarrow> f k1 s = f k2 s"
  unfolding local_body_def by blast

lemma rep_local:
  "local_body L f \<Longrightarrow> wf_state L s \<Longrightarrow> agree L (endIndex s) k1 k2 \<Longrightarrow>
     rep f lo hi fuel k1 s = rep f lo hi fuel k2 s"
proof (induction f lo hi fuel k1 s arbitrary: k2 rule: rep.induct)
  case (1 f lo hi fuel k1 i p r c)
  let ?s = "(i, p, r, c)"
  from "1.prems"(2,3) have ks: "k1 ?s = k2 ?s" by (auto dest: agreeD)
  show ?case
  proof (cases "hi = Some 0")
    case True
    with ks show ?thesis by simp
  next
    case bounded: False
    show ?thesis
    proof (cases lo)
      case (Suc lo')
      have "agree L (endIndex ?s) (rep f lo' (dec hi) fuel k1) (rep f lo' (dec hi) fuel k2)"
        unfolding agree_def
      proof (intro allI impI)
        fix s' assume s': "wf_state L s' \<and> endIndex ?s \<le> endIndex s'"
        with agree_mono[OF "1.prems"(3)] have "agree L (endIndex s') k1 k2" by blast
        with "1.IH"(2)[OF bounded Suc "1.prems"(1)] s'
        show "rep f lo' (dec hi) fuel k1 s' = rep f lo' (dec hi) fuel k2 s'" by blast
      qed
      from local_bodyD[OF "1.prems"(1,2) this] bounded Suc show ?thesis by simp
    next
      case 0
      show ?thesis
      proof (cases fuel)
        case Nil
        with bounded 0 ks show ?thesis by simp
      next
        case (Cons x fuel')
        let ?K1 = "\<lambda>s'. if i < endIndex s' then rep f 0 (dec hi) fuel' k1 s' else None"
        let ?K2 = "\<lambda>s'. if i < endIndex s' then rep f 0 (dec hi) fuel' k2 s' else None"
        have "agree L (endIndex ?s) ?K1 ?K2"
          unfolding agree_def
        proof (intro allI impI)
          fix s' assume s': "wf_state L s' \<and> endIndex ?s \<le> endIndex s'"
          with agree_mono[OF "1.prems"(3)] have a: "agree L (endIndex s') k1 k2" by blast
          show "?K1 s' = ?K2 s'"
          proof (cases "i < endIndex s'")
            case True
            from "1.IH"(1)[OF bounded 0 Cons True "1.prems"(1) _ a] s' True
            show ?thesis by simp
          next
            case False
            then show ?thesis by simp
          qed
        qed
        from local_bodyD[OF "1.prems"(1,2) this] have "f ?K1 ?s = f ?K2 ?s" .
        with bounded 0 Cons ks show ?thesis by (simp split: option.splits)
      qed
    qed
  qed
qed

lemma wf_clearcaps: "wf_state L s \<Longrightarrow> wf_state L (clearcaps ns s)"
  by (cases s) (simp add: wf_state_def)

lemma endIndex_clearcaps: "endIndex (clearcaps ns s) = endIndex s"
  by (cases s) simp

lemma endIndex_setcap: "endIndex (setcap n i s) = endIndex s"
  by (cases s) simp

lemma step_local:
  "wf_state L s \<Longrightarrow> agree L (endIndex s) k1 k2 \<Longrightarrow> step ok k1 s = step ok k2 s"
proof -
  assume wf: "wf_state L s" and a: "agree L (endIndex s) k1 k2"
  obtain i p rs c where s: "s = (i, p, rs, c)" by (cases s) auto
  show ?thesis
  proof (cases rs)
    case Nil
    with s show ?thesis by simp
  next
    case (Cons x xs)
    from wf s Cons have "wf_state L (i + 1, Some x, xs, c)" by (simp add: wf_state_def)
    from agreeD[OF a this] s have "k1 (i + 1, Some x, xs, c) = k2 (i + 1, Some x, xs, c)" by simp
    with s Cons show ?thesis by simp
  qed
qed

lemma rmatch_local:
  "wf_state L s \<Longrightarrow> agree L (endIndex s) k1 k2 \<Longrightarrow> rmatch ci r k1 s = rmatch ci r k2 s"
proof (induction ci r k1 s arbitrary: k2 rule: rmatch.induct)
  case (1 ci k s)
  then show ?case by (auto dest: agreeD)
next
  case (2 ci c k s)
  then show ?case by (simp add: step_local)
next
  case (3 ci neg items k s)
  then show ?case by (simp add: step_local)
next
  case (4 ci k s)
  then show ?case by (auto dest: agreeD)
next
  case (5 ci a b k s)
  have "agree L (endIndex s) (rmatch ci b k) (rmatch ci b k2)"
    unfolding agree_def
  proof (intro allI impI)
    fix s' assume s': "wf_state L s' \<and> endIndex s \<le> endIndex s'"
    with agree_mono[OF "5.prems"(2)] have "agree L (endIndex s') k k2" by blast
    with "5.IH"(1) s' show "rmatch ci b k s' = rmatch ci b k2 s'" by blast
  qed
  from "5.IH"(2)[OF "5.prems"(1) this] show ?case by simp
next
  case (6 ci a b k s)
  from "6.IH"(1)[OF "6.prems"] have a: "rmatch ci a k s = rmatch ci a k2 s" .
  show ?case
  proof (cases "rmatch ci a k s")
    case None
    from "6.IH"(2)[OF None "6.prems"] None a show ?thesis by simp
  next
    case (Some res)
    with a have "rmatch ci a k2 s = Some res" by simp
    with Some show ?thesis by simp
  qed
next
  case (7 ci n r k s)
  have "agree L (endIndex s) (\<lambda>s'. k (setcap n (endIndex s) s')) (\<lambda>s'. k2 (setcap n (endIndex s) s'))"
    unfolding agree_def
  proof (intro allI impI)
    fix s' assume s': "wf_state L s' \<and> endIndex s \<le> endIndex s'"
    then have "wf_state L (setcap n (endIndex s) s')" "endIndex s \<le> endIndex (setcap n (endIndex s) s')"
      by (simp_all add: wf_setcap endIndex_setcap)
    from agreeD[OF "7.prems"(2) this]
    show "k (setcap n (endIndex s) s') = k2 (setcap n (endIndex s) s')" .
  qed
  from "7.IH"[OF "7.prems"(1) this] show ?case by simp
next
  case (8 ci lo hi r k i p rs c)
  let ?f = "\<lambda>k' s'. rmatch ci r k' (clearcaps (groups r) s')"
  have "local_body L ?f"
    unfolding local_body_def
  proof (intro allI impI)
    fix ka kb s assume wf: "wf_state L s" and a: "agree L (endIndex s) ka kb"
    from a have "agree L (endIndex (clearcaps (groups r) s)) ka kb"
      by (simp add: endIndex_clearcaps)
    from "8.IH"[OF wf_clearcaps[OF wf] this]
    show "rmatch ci r ka (clearcaps (groups r) s) = rmatch ci r kb (clearcaps (groups r) s)" .
  qed
  from rep_local[OF this "8.prems"] show ?case by (simp del: rep.simps)
qed

lemma rep_fuel_length:
  "length fuel1 = length fuel2 \<Longrightarrow> rep f lo hi fuel1 k s = rep f lo hi fuel2 k s"
proof (induction f lo hi fuel1 k s arbitrary: fuel2 rule: rep.induct)
  case (1 f lo hi fuel k i p r c)
  let ?s = "(i, p, r, c)"
  show ?case
  proof (cases "hi = Some 0")
    case True
    then show ?thesis by simp
  next
    case bounded: False
    show ?thesis
    proof (cases lo)
      case (Suc lo')
      from "1.IH"(2)[OF bounded Suc "1.prems"]
      have "rep f lo' (dec hi) fuel k = rep f lo' (dec hi) fuel2 k" by (intro ext)
      with bounded Suc show ?thesis by simp
    next
      case 0
      show ?thesis
      proof (cases fuel)
        case Nil
        with "1.prems" bounded 0 show ?thesis by simp
      next
        case (Cons x fuel')
        with "1.prems" obtain y fuel2' where f2: "fuel2 = y # fuel2'" "length fuel' = length fuel2'"
          by (cases fuel2) auto
        have "(\<lambda>s'. if i < endIndex s' then rep f 0 (dec hi) fuel' k s' else None) =
              (\<lambda>s'. if i < endIndex s' then rep f 0 (dec hi) fuel2' k s' else None)"
        proof (intro ext)
          fix s'
          show "(if i < endIndex s' then rep f 0 (dec hi) fuel' k s' else None) =
                (if i < endIndex s' then rep f 0 (dec hi) fuel2' k s' else None)"
            using "1.IH"(1)[OF bounded 0 Cons _ f2(2)] by simp
        qed
        with bounded 0 Cons f2(1) show ?thesis by simp
      qed
    qed
  qed
qed

lemma follows_remaining:
  "wf_state L s \<Longrightarrow> follows L b ns s s' \<Longrightarrow> length (remaining s') \<le> length (remaining s)"
  by (auto simp: follows_def wf_state_def)

lemma wf_remaining:
  "wf_state L s \<Longrightarrow> wf_state L s' \<Longrightarrow> endIndex s \<le> endIndex s' \<Longrightarrow>
     length (remaining s') \<le> length (remaining s)"
  by (auto simp: wf_state_def)

lemma wf_remaining_less:
  "wf_state L s \<Longrightarrow> wf_state L s' \<Longrightarrow> endIndex s < endIndex s' \<Longrightarrow>
     length (remaining s') < length (remaining s)"
  by (auto simp: wf_state_def)

lemma body_stuck_at_end:
  assumes "sound_body L ns f" and "wf_state L s" and "remaining s = []"
  shows "f (\<lambda>s'. if endIndex s < endIndex s' then g s' else None) s = None"
proof (cases "f (\<lambda>s'. if endIndex s < endIndex s' then g s' else None) s")
  case None
  then show ?thesis .
next
  case (Some res)
  from sound_bodyD[OF assms(1,2) Some]
  obtain s' where s': "follows L False ns s s'"
      "(if endIndex s < endIndex s' then g s' else None) = Some res"
    by blast
  from follows_wf[OF s'(1)] assms(2,3) have "endIndex s' \<le> endIndex s"
    by (simp add: wf_state_def)
  with s'(2) show ?thesis by simp
qed

lemma rep_fuel_enough:
  "local_body L f \<Longrightarrow> sound_body L ns f \<Longrightarrow> wf_state L s \<Longrightarrow>
   length (remaining s) \<le> length fuel \<Longrightarrow>
     rep f lo hi fuel k s = rep f lo hi (x # fuel) k s"
proof (induction f lo hi fuel k s arbitrary: x rule: rep.induct)
  case (1 f lo hi fuel k i p r c)
  let ?s = "(i, p, r, c)"
  show ?case
  proof (cases "hi = Some 0")
    case True
    then show ?thesis by simp
  next
    case bounded: False
    show ?thesis
    proof (cases lo)
      case (Suc lo')
      have "agree L (endIndex ?s) (rep f lo' (dec hi) fuel k) (rep f lo' (dec hi) (x # fuel) k)"
        unfolding agree_def
      proof (intro allI impI)
        fix s' assume s': "wf_state L s' \<and> endIndex ?s \<le> endIndex s'"
        with wf_remaining[OF "1.prems"(3)] "1.prems"(4)
        have "length (remaining s') \<le> length fuel" by fastforce
        with "1.IH"(2)[OF bounded Suc "1.prems"(1,2)] s'
        show "rep f lo' (dec hi) fuel k s' = rep f lo' (dec hi) (x # fuel) k s'" by blast
      qed
      from local_bodyD[OF "1.prems"(1,3) this] bounded Suc show ?thesis by simp
    next
      case 0
      show ?thesis
      proof (cases fuel)
        case Nil
        with "1.prems"(4) have "remaining ?s = []" by simp
        from body_stuck_at_end[OF "1.prems"(2,3) this, of "rep f 0 (dec hi) [] k"]
        have "f (\<lambda>s'. if i < endIndex s' then rep f 0 (dec hi) [] k s' else None) ?s = None"
          by simp
        with bounded 0 Nil show ?thesis by simp
      next
        case (Cons y fuel')
        let ?K1 = "\<lambda>s'. if i < endIndex s' then rep f 0 (dec hi) fuel' k s' else None"
        let ?K2 = "\<lambda>s'. if i < endIndex s' then rep f 0 (dec hi) (y # fuel') k s' else None"
        have "agree L (endIndex ?s) ?K1 ?K2"
          unfolding agree_def
        proof (intro allI impI)
          fix s' assume s': "wf_state L s' \<and> endIndex ?s \<le> endIndex s'"
          show "?K1 s' = ?K2 s'"
          proof (cases "i < endIndex s'")
            case True
            with wf_remaining_less[OF "1.prems"(3), of s'] s' "1.prems"(4) Cons
            have "length (remaining s') \<le> length fuel'" by simp
            from "1.IH"(1)[OF bounded 0 Cons True "1.prems"(1,2) _ this] s' True
            show ?thesis by simp
          next
            case False
            then show ?thesis by simp
          qed
        qed
        from local_bodyD[OF "1.prems"(1,3) this] have "f ?K1 ?s = f ?K2 ?s" .
        with bounded 0 Cons show ?thesis by simp
      qed
    qed
  qed
qed

lemma rep_fuel_any:
  assumes "local_body L f" and "sound_body L ns f" and "wf_state L s"
  shows "length (remaining s) \<le> length fuel \<Longrightarrow>
           rep f lo hi fuel k s = rep f lo hi (remaining s) k s"
proof (induction fuel)
  case Nil
  then show ?case by simp
next
  case (Cons x fuel)
  show ?case
  proof (cases "length (remaining s) \<le> length fuel")
    case True
    from rep_fuel_enough[OF assms True] Cons.IH[OF True] show ?thesis by simp
  next
    case False
    with Cons.prems have "length (x # fuel) = length (remaining s)" by simp
    then show ?thesis by (rule rep_fuel_length)
  qed
qed

lemma rmatch_body_sound:
  "sound_body L (groups r) (\<lambda>k' s'. rmatch ci r k' (clearcaps (groups r) s'))"
  unfolding sound_body_def
proof (intro allI impI)
  fix k s res
  assume wf: "wf_state L s" and run: "rmatch ci r k (clearcaps (groups r) s) = Some res"
  from clearcaps_follows[OF wf] have c: "follows L False (groups r) s (clearcaps (groups r) s)" .
  from rmatch_follows[OF follows_wf[OF c] run]
  obtain s1 where s1: "follows L (nonempty r) (groups r) (clearcaps (groups r) s) s1"
      "k s1 = Some res"
    by blast
  have "follows L False (groups r) s s1"
    by (rule follows_weaken[OF follows_trans[OF c s1(1)]]) auto
  with s1(2) show "\<exists>s'. follows L False (groups r) s s' \<and> k s' = Some res" by blast
qed

lemma rmatch_body_local:
  "local_body L (\<lambda>k' s'. rmatch ci r k' (clearcaps (groups r) s'))"
  unfolding local_body_def
proof (intro allI impI)
  fix ka kb s assume wf: "wf_state L s" and a: "agree L (endIndex s) ka kb"
  from a have "agree L (endIndex (clearcaps (groups r) s)) ka kb"
    by (simp add: endIndex_clearcaps)
  from rmatch_local[OF wf_clearcaps[OF wf] this]
  show "rmatch ci r ka (clearcaps (groups r) s) = rmatch ci r kb (clearcaps (groups r) s)" .
qed

lemma rmatch_Rep:
  "rmatch ci (Rep lo hi r) k s =
     rep (\<lambda>k' s'. rmatch ci r k' (clearcaps (groups r) s')) lo hi (remaining s) k s"
  by (cases s) (simp del: rep.simps)

lemma wf_state_exists: "0 \<le> endIndex s \<Longrightarrow> wf_state (endIndex s + int (length (remaining s))) s"
  by (simp add: wf_state_def)

lemma rmatch_Rep_fuel:
  assumes "wf_state L s" and "wf_state L s'" and "endIndex s \<le> endIndex s'"
  shows "rep (\<lambda>k' s'. rmatch ci r k' (clearcaps (groups r) s')) lo hi (remaining s) k s' =
         rmatch ci (Rep lo hi r) k s'"
  unfolding rmatch_Rep
  by (rule rep_fuel_any[OF rmatch_body_local rmatch_body_sound assms(2)])
     (rule wf_remaining[OF assms])

lemma rmatch_Rep_max_zero: "rmatch ci (Rep lo (Some 0) r) k s = k s"
  by (cases s) simp

lemma rmatch_Rep_min:
  assumes "0 \<le> endIndex s" and "hi \<noteq> Some 0"
  shows "rmatch ci (Rep (Suc lo) hi r) k s =
           rmatch ci r (rmatch ci (Rep lo (dec hi) r) k) (clearcaps (groups r) s)"
proof -
  let ?L = "endIndex s + int (length (remaining s))"
  let ?f = "\<lambda>k' s'. rmatch ci r k' (clearcaps (groups r) s')"
  from assms(1) have wf: "wf_state ?L s" by (rule wf_state_exists)
  have "agree ?L (endIndex s) (rep ?f lo (dec hi) (remaining s) k) (rmatch ci (Rep lo (dec hi) r) k)"
    unfolding agree_def using rmatch_Rep_fuel[OF wf] by blast
  from local_bodyD[OF rmatch_body_local wf this]
  have "?f (rep ?f lo (dec hi) (remaining s) k) s = ?f (rmatch ci (Rep lo (dec hi) r) k) s" .
  moreover from assms(2) have "rmatch ci (Rep (Suc lo) hi r) k s =
      ?f (rep ?f lo (dec hi) (remaining s) k) s"
    by (cases s) simp
  ultimately show ?thesis by simp
qed

lemma rmatch_Rep_greedy:
  assumes "0 \<le> endIndex s" and "hi \<noteq> Some 0"
  shows "rmatch ci (Rep 0 hi r) k s =
           (case rmatch ci r (\<lambda>s'. if endIndex s < endIndex s'
                                     then rmatch ci (Rep 0 (dec hi) r) k s' else None)
                   (clearcaps (groups r) s) of
              Some res \<Rightarrow> Some res
            | None \<Rightarrow> k s)"
proof -
  let ?L = "endIndex s + int (length (remaining s))"
  let ?f = "\<lambda>k' s'. rmatch ci r k' (clearcaps (groups r) s')"
  let ?K = "\<lambda>s'. if endIndex s < endIndex s' then rmatch ci (Rep 0 (dec hi) r) k s' else None"
  from assms(1) have wf: "wf_state ?L s" by (rule wf_state_exists)
  obtain i p rs c where s: "s = (i, p, rs, c)" by (cases s) auto
  show ?thesis
  proof (cases rs)
    case Nil
    with s have "remaining s = []" by simp
    from body_stuck_at_end[OF rmatch_body_sound wf this, of ci r "rmatch ci (Rep 0 (dec hi) r) k"]
    have "?f ?K s = None" .
    with assms(2) s Nil show ?thesis by simp
  next
    case (Cons x rs')
    let ?K1 = "\<lambda>s'. if i < endIndex s' then rep ?f 0 (dec hi) rs' k s' else None"
    have "agree ?L (endIndex s) ?K1 ?K"
      unfolding agree_def
    proof (intro allI impI)
      fix s' assume s': "wf_state ?L s' \<and> endIndex s \<le> endIndex s'"
      show "?K1 s' = ?K s'"
      proof (cases "i < endIndex s'")
        case True
        with wf_remaining_less[OF wf, of s'] s' s Cons
        have "length (remaining s') \<le> length rs'" by simp
        from rep_fuel_any[OF rmatch_body_local rmatch_body_sound _ this, of ?L ci r 0 "dec hi" k] s'
        have "rep ?f 0 (dec hi) rs' k s' = rmatch ci (Rep 0 (dec hi) r) k s'"
          by (simp add: rmatch_Rep)
        with True s show ?thesis by simp
      next
        case False
        with s show ?thesis by simp
      qed
    qed
    from local_bodyD[OF rmatch_body_local wf this] have "?f ?K1 s = ?f ?K s" .
    with assms(2) s Cons show ?thesis by (simp split: option.splits)
  qed
qed


subsection \<open>A match stays inside its input\<close>

lemma inside_bodyD:
  "inside_body f \<Longrightarrow> f k s = Some res \<Longrightarrow>
     \<exists>s'. set (remaining s') \<subseteq> set (remaining s) \<and> k s' = Some res"
  unfolding inside_body_def by blast

lemma step_inside:
  assumes "step ok k s = Some res"
  shows "\<exists>x s'. x \<in> set (remaining s) \<and> ok x \<and> set (remaining s') \<subseteq> set (remaining s) \<and>
           k s' = Some res"
proof -
  obtain i p rs c where s: "s = (i, p, rs, c)" by (cases s) auto
  with assms obtain x xs where rs: "rs = x # xs" by (cases rs) auto
  from assms s rs have "ok x" "k (i + 1, Some x, xs, c) = Some res"
    by (auto split: if_splits)
  moreover from s rs have "x \<in> set (remaining s)"
      "set (remaining (i + 1, Some x, xs, c)) \<subseteq> set (remaining s)"
    by auto
  ultimately show ?thesis by blast
qed

lemma rep_inside:
  "inside_body f \<Longrightarrow> rep f lo hi fuel k s = Some res \<Longrightarrow>
     \<exists>s'. set (remaining s') \<subseteq> set (remaining s) \<and> k s' = Some res"
proof (induction f lo hi fuel k s arbitrary: res rule: rep.induct)
  case (1 f lo hi fuel k i p r c)
  let ?s = "(i, p, r, c)"
  show ?case
  proof (cases "hi = Some 0")
    case True
    with "1.prems"(2) have "k ?s = Some res" by simp
    then show ?thesis by blast
  next
    case bounded: False
    show ?thesis
    proof (cases lo)
      case (Suc lo')
      with bounded "1.prems"(2) have "f (rep f lo' (dec hi) fuel k) ?s = Some res" by simp
      from inside_bodyD[OF "1.prems"(1) this]
      obtain s1 where s1: "set (remaining s1) \<subseteq> set (remaining ?s)"
          "rep f lo' (dec hi) fuel k s1 = Some res"
        by blast
      from "1.IH"(2)[OF bounded Suc "1.prems"(1) s1(2)]
      obtain s2 where "set (remaining s2) \<subseteq> set (remaining s1)" "k s2 = Some res" by blast
      with s1(1) show ?thesis by blast
    next
      case 0
      show ?thesis
      proof (cases fuel)
        case Nil
        with bounded 0 "1.prems"(2) have "k ?s = Some res" by simp
        then show ?thesis by blast
      next
        case (Cons x fuel')
        let ?k' = "\<lambda>s'. if i < endIndex s' then rep f 0 (dec hi) fuel' k s' else None"
        show ?thesis
        proof (cases "f ?k' ?s")
          case None
          with bounded 0 Cons "1.prems"(2) have "k ?s = Some res" by simp
          then show ?thesis by blast
        next
          case (Some res')
          with bounded 0 Cons "1.prems"(2) have eq: "f ?k' ?s = Some res" by simp
          from inside_bodyD[OF "1.prems"(1) eq]
          obtain s1 where s1: "set (remaining s1) \<subseteq> set (remaining ?s)" "?k' s1 = Some res"
            by blast
          from s1(2) have lt: "i < endIndex s1"
            and r1: "rep f 0 (dec hi) fuel' k s1 = Some res"
            by (simp_all split: if_splits)
          from "1.IH"(1)[OF bounded 0 Cons lt "1.prems"(1) r1]
          obtain s2 where "set (remaining s2) \<subseteq> set (remaining s1)" "k s2 = Some res" by blast
          with s1(1) show ?thesis by blast
        qed
      qed
    qed
  qed
qed

lemma remaining_clearcaps: "remaining (clearcaps ns s) = remaining s"
  by (cases s) simp

lemma remaining_setcap: "remaining (setcap n i s) = remaining s"
  by (cases s) simp

lemma rmatch_inside:
  "rmatch ci r k s = Some res \<Longrightarrow>
     \<exists>s'. set (remaining s') \<subseteq> set (remaining s) \<and> k s' = Some res"
proof (induction ci r k s arbitrary: res rule: rmatch.induct)
  case (1 ci k s)
  then have "k s = Some res" by simp
  then show ?case by blast
next
  case (2 ci c k s)
  then have "step (lit_eq ci c) k s = Some res" by simp
  from step_inside[OF this] show ?case by blast
next
  case (3 ci neg items k s)
  then have "step (\<lambda>x. class_mem ci items x \<noteq> neg) k s = Some res" by simp
  from step_inside[OF this] show ?case by blast
next
  case (4 ci k s)
  then have "k s = Some res" by (simp split: if_splits)
  then show ?case by blast
next
  case (5 ci a b k s)
  from "5.prems" have "rmatch ci a (rmatch ci b k) s = Some res" by simp
  from "5.IH"(2)[OF this]
  obtain s1 where s1: "set (remaining s1) \<subseteq> set (remaining s)" "rmatch ci b k s1 = Some res"
    by blast
  from "5.IH"(1)[OF s1(2)]
  obtain s2 where "set (remaining s2) \<subseteq> set (remaining s1)" "k s2 = Some res" by blast
  with s1(1) show ?case by blast
next
  case (6 ci a b k s)
  show ?case
  proof (cases "rmatch ci a k s")
    case None
    with "6.prems" have "rmatch ci b k s = Some res" by simp
    from "6.IH"(2)[OF None this] show ?thesis .
  next
    case (Some res')
    with "6.prems" have "rmatch ci a k s = Some res" by simp
    from "6.IH"(1)[OF this] show ?thesis .
  qed
next
  case (7 ci n r k s)
  from "7.prems" have "rmatch ci r (\<lambda>s'. k (setcap n (endIndex s) s')) s = Some res" by simp
  from "7.IH"[OF this]
  obtain s1 where s1: "set (remaining s1) \<subseteq> set (remaining s)"
      "k (setcap n (endIndex s) s1) = Some res" by blast
  from s1(1) have "set (remaining (setcap n (endIndex s) s1)) \<subseteq> set (remaining s)"
    by (simp add: remaining_setcap)
  with s1(2) show ?case by blast
next
  case (8 ci lo hi r k i p rs c)
  let ?f = "\<lambda>k' s'. rmatch ci r k' (clearcaps (groups r) s')"
  have "inside_body ?f"
    unfolding inside_body_def
  proof (intro allI impI)
    fix k' s res'
    assume "rmatch ci r k' (clearcaps (groups r) s) = Some res'"
    from "8.IH"[OF this]
    show "\<exists>s'. set (remaining s') \<subseteq> set (remaining s) \<and> k' s' = Some res'"
      by (simp add: remaining_clearcaps)
  qed
  moreover from "8.prems" have "rep ?f lo hi rs k (i, p, rs, c) = Some res"
    by (simp del: rep.simps)
  ultimately show ?case by (rule rep_inside)
qed

lemma seq_inside:
  "rmatch ci (Seq a b) k s = Some res \<Longrightarrow>
     \<exists>s1. set (remaining s1) \<subseteq> set (remaining s) \<and> rmatch ci b k s1 = Some res"
  using rmatch_inside[of ci a "rmatch ci b k" s res] by simp


section \<open>Confidence scorer: bounds and inputs\<close>

lemma roundHalfEven_nonneg: "0 \<le> x \<Longrightarrow> 0 \<le> roundHalfEven x"
  by (simp add: roundHalfEven_def Let_def)

lemma fl_nonneg: "0 \<le> q \<Longrightarrow> 0 \<le> fl q"
  by (simp add: fl_def roundHalfEven_nonneg)

lemma fadd_nonneg: "0 \<le> x \<Longrightarrow> 0 \<le> y \<Longrightarrow> 0 \<le> fadd x y"
  by (simp add: fadd_def fl_nonneg)

lemma double_literals_nonneg: "0 \<le> d0_6" "0 \<le> d0_2" "0 \<le> d0_1" "0 \<le> d0_05"
  by (simp_all add: d0_6_def d0_2_def d0_1_def d0_05_def)

lemma double_literals_nearest:
  "\<bar>d0_6 - 6 / 10\<bar> < 1 / 2 ^ 54" "\<bar>d0_2 - 2 / 10\<bar> < 1 / 2 ^ 56"
  "\<bar>d0_1 - 1 / 10\<bar> < 1 / 2 ^ 57" "\<bar>d0_05 - 5 / 100\<bar> < 1 / 2 ^ 58"
  "\<bar>d0_95 - 95 / 100\<bar> < 1 / 2 ^ 54"
  by (simp_all add: d0_6_def d0_2_def d0_1_def d0_05_def d0_95_def)

lemma floor_numeral_div: "\<lfloor>numeral a / numeral b :: rat\<rfloor> = numeral a div numeral b"
  using floor_divide_of_int_eq[of "numeral a" "numeral b", where ?'a = rat] by simp

lemma fadd_06_02: "fadd d0_6 d0_2 = 3602879701896397 / 2 ^ 52"
  by (simp add: fadd_def fl_def roundHalfEven_def d0_6_def d0_2_def Let_def floor_numeral_div)

lemma fadd_08_01: "fadd (3602879701896397 / 2 ^ 52) d0_1 = 8106479329266893 / 2 ^ 53"
  by (simp add: fadd_def fl_def roundHalfEven_def d0_1_def Let_def floor_numeral_div)

lemma fadd_09_005: "fadd (8106479329266893 / 2 ^ 53) d0_05 = 8556839292003943 / 2 ^ 53"
  by (simp add: fadd_def fl_def roundHalfEven_def d0_05_def Let_def floor_numeral_div)

text \<open>
  Claim C1. For every raw result and every category, \<open>calculateConfidence\<close> returns a
  score in the interval from 0 to 1: it is never negative and never exceeds 1, whichever of
  the four boosts apply, because the sum that starts from the base 0.6 is clamped by
  \<open>min\<close> with 1. The sums are the binary64 sums the host computes.
\<close>

theorem calculateConfidence_range:
  "0 \<le> calculateConfidence result category \<and> calculateConfidence result category \<le> 1"
proof -
  define t where "t = scoreText result"
  define c1 where "c1 = (if list_ex (\<lambda>domain. includesStr t domain) eventDomains
                        then fadd d0_6 d0_2 else d0_6)"
  define c2 where "c2 = (if includesStr t (toLowerCase category) then fadd c1 d0_1 else c1)"
  define c3 where "c3 = (if list_ex (\<lambda>keyword. includesStr t keyword) calculateConfidence_eventKeywords
                        then fadd c2 d0_1 else c2)"
  define c4 where "c4 = (if containsDatePattern t then fadd c3 d0_05 else c3)"
  have eq: "calculateConfidence result category = min c4 1"
    by (simp add: calculateConfidence_def Let_def c4_def c3_def c2_def c1_def t_def)
  have "0 \<le> c1" by (simp add: c1_def fadd_nonneg double_literals_nonneg)
  then have "0 \<le> c2" by (simp add: c2_def fadd_nonneg double_literals_nonneg)
  then have "0 \<le> c3" by (simp add: c3_def fadd_nonneg double_literals_nonneg)
  then have "0 \<le> c4" by (simp add: c4_def fadd_nonneg double_literals_nonneg)
  with eq show ?thesis by simp
qed

text \<open>
  Claim C10. Two raw results that differ only in their \<open>question\<close> field receive the
  same confidence for every category: the scorer reads the title, the snippet and the link
  only.
\<close>

theorem calculateConfidence_ignores_question:
  "calculateConfidence (result\<lparr>r_question := q\<rparr>) category = calculateConfidence result category"
  by (simp add: calculateConfidence_def scoreText_def)


section \<open>Classifier, normalizer and orchestrator\<close>

lemma length_map_filter_le: "length (List.map_filter f xs) \<le> length xs"
  by (induction xs) (auto simp: map_filter_simps split: option.splits)

lemma length_slice0_le: "0 \<le> n \<Longrightarrow> int (length (slice0 xs n)) \<le> n"
  by (simp add: slice0_def)

lemma searchEvents_failure:
  "providerCall host (buildPayload category location (limitOrDefault limitArg)) = Inl message \<Longrightarrow>
     searchEvents host category location limitArg = failure host message"
  by (simp add: searchEvents_def Let_def)

lemma searchEvents_success:
  "providerCall host (buildPayload category location (limitOrDefault limitArg)) = Inr data \<Longrightarrow>
     success (searchEvents host category location limitArg) \<and>
     error (searchEvents host category location limitArg) = None \<and>
     events (searchEvents host category location limitArg) =
       transformAll (h_clock host) category
         (slice0 (filterEventResults (orNil (d_organic data) @ orNil (d_peopleAlsoAsk data)))
                 (limitOrDefault limitArg)) \<and>
     count (searchEvents host category location limitArg) =
       length (events (searchEvents host category location limitArg))"
  by (simp add: searchEvents_def Let_def)



text \<open>
  Claim C8. For every provider response and every limit of the interface (an integer that
  is not negative; 10 when absent), the envelope of \<open>searchEvents\<close> holds at most
  \<open>limit\<close> events, and \<open>count\<close> is their number, also when more candidates pass
  the classifier.
\<close>

theorem searchEvents_at_most_limit:
  assumes "0 \<le> limitOrDefault limitArg"
  shows "int (length (events (searchEvents host category location limitArg))) \<le> limitOrDefault limitArg \<and>
         count (searchEvents host category location limitArg) =
           length (events (searchEvents host category location limitArg))"
proof (cases "providerCall host (buildPayload category location (limitOrDefault limitArg))")
  case (Inl message)
  from searchEvents_failure[OF this] assms show ?thesis by (simp add: failure_def)
next
  case (Inr data)
  let ?cands = "slice0 (filterEventResults (orNil (d_organic data) @ orNil (d_peopleAlsoAsk data)))
                  (limitOrDefault limitArg)"
  have "length (transformAll (h_clock host) category ?cands) \<le> length ?cands"
    unfolding transformAll_def by (rule length_map_filter_le)
  with length_slice0_le[OF assms, of "filterEventResults (orNil (d_organic data) @ orNil (d_peopleAlsoAsk data))"]
  have "int (length (transformAll (h_clock host) category ?cands)) \<le> limitOrDefault limitArg"
    by linarith
  with searchEvents_success[OF Inr] show ?thesis by simp
qed

lemma sample_candidates: "length (filterEventResults [dateOnlyResult, concertResult]) = 2"
  by code_simp

text \<open>
  Two candidates pass the classifier and the limit is 1.
\<close>

theorem searchEvents_at_most_limit_witness:
  "0 \<le> limitOrDefault (Some 1) \<and>
   length (filterEventResults [dateOnlyResult, concertResult]) = 2 \<and>
   int (length (events (searchEvents sampleHost ''music'' ''Austin'' (Some 1)))) \<le> limitOrDefault (Some 1)"
proof -
  have h: "0 \<le> limitOrDefault (Some 1)" by (simp add: limitOrDefault_def)
  from searchEvents_at_most_limit[OF h, of sampleHost "''music''" "''Austin''"] h sample_candidates
  show ?thesis by blast
qed

text \<open>
  Claim C9. A raw result with neither a title nor a question is dropped by the normalizer:
  \<open>transformEvent\<close> returns nothing for it (it raises no error), and the batch goes on
  around it, so the events of the batch are those of the results before it followed by
  those of the results after it.
\<close>

theorem untitled_result_dropped:
  assumes "r_title result = None" and "r_question result = None"
  shows "transformEvent clk result category = None \<and>
         transformAll clk category (before @ result # after) =
           transformAll clk category before @ transformAll clk category after"
proof -
  from assms have none: "transformEvent clk result category = None"
    by (simp add: transformEvent_def orElse_def truthy_def)
  then show ?thesis
    by (simp add: transformAll_def List.map_filter_def)
qed

text \<open>
  A result without title and question that the classifier accepts.
\<close>

theorem untitled_result_dropped_witness:
  "r_title untitledResult = None \<and> r_question untitledResult = None \<and>
   isEventResult untitledResult \<and>
   transformEvent sampleClock untitledResult ''music'' = None \<and>
   transformAll sampleClock ''music'' ([concertResult] @ untitledResult # [dateOnlyResult]) =
     transformAll sampleClock ''music'' [concertResult] @ transformAll sampleClock ''music'' [dateOnlyResult]"
proof -
  have t: "r_title untitledResult = None" and q: "r_question untitledResult = None"
    by (simp_all add: untitledResult_def)
  have "isEventResult untitledResult" by code_simp
  with untitled_result_dropped[OF t q, of sampleClock "''music''" "[concertResult]" "[dateOnlyResult]"] t q
  show ?thesis by blast
qed

text \<open>
  Over the text it builds, which is the lowercased title, snippet, link and question, the
  classifier is the disjunction of its three tests, and \<open>filterEventResults\<close> keeps the
  accepted results in their order. A date alone makes a result event-like.
\<close>

lemma isEventResult_iff:
  "(isEventResult result \<longleftrightarrow>
      (\<exists>keyword \<in> set filterEventResults_eventKeywords. includesStr (searchText result) keyword) \<or>
      containsDatePattern (searchText result) \<or>
      containsVenuePattern (searchText result)) \<and>
   filterEventResults results = filter isEventResult results"
  by (auto simp: isEventResult_def filterEventResults_def list_ex_iff)

lemma date_only_result_accepted:
  "\<not> (\<exists>keyword \<in> set filterEventResults_eventKeywords. includesStr (searchText dateOnlyResult) keyword) \<and>
   \<not> containsVenuePattern (searchText dateOnlyResult) \<and>
   containsDatePattern (searchText dateOnlyResult) \<and>
   isEventResult dateOnlyResult"
proof -
  have k: "\<not> list_ex (includesStr (searchText dateOnlyResult)) filterEventResults_eventKeywords"
    by code_simp
  have v: "\<not> containsVenuePattern (searchText dateOnlyResult)" by code_simp
  have d: "containsDatePattern (searchText dateOnlyResult)" by code_simp
  then have "isEventResult dateOnlyResult" by (simp add: isEventResult_def)
  with k v d show ?thesis by (simp add: list_ex_iff)
qed


text \<open>
  Claim C3 says that a result is event-like exactly when a keyword, a date pattern or a venue
  pattern is found in its combined text. The code loses the first venue rule: the rule has
  no case-insensitive flag and asks for a capital letter after \<open>at\<close>, and
  \<open>filterEventResults\<close> lowercases every field before it tests the rules. For the title
  \<open>Meet at Blue Note\<close> the venue rule matches the combined text, and the classifier
  rejects the result.
\<close>

theorem classifier_misses_venue:
  "test capitalVenueRule (spec_combinedText venueOnlyResult) \<and>
   containsVenuePattern (spec_combinedText venueOnlyResult) \<and>
   \<not> containsVenuePattern (searchText venueOnlyResult) \<and>
   \<not> isEventResult venueOnlyResult"
  by code_simp

text \<open>
  The rule is dead for every result: a match of it consumes a capital letter, and the text
  the classifier builds holds none.
\<close>

lemma toLowerChar_not_upper: "\<not> isUpper (toLowerChar c)"
proof (cases c)
  case (Char b0 b1 b2 b3 b4 b5 b6 b7)
  show ?thesis
    unfolding Char toLowerChar_code
    by (cases b0; cases b1; cases b2; cases b3; cases b4; cases b5; cases b6; cases b7;
        simp add: isUpper_def isUpperLatin1_def)
qed

lemma space_not_upper: "\<not> isUpper CHR '' ''"
  by (simp add: isUpper_def)

lemma searchText_not_upper: "c \<in> set (searchText result) \<Longrightarrow> \<not> isUpper c"
  by (auto simp: searchText_def toLowerCase_def toLowerChar_not_upper space_not_upper)

lemma capitalVenueRule_body:
  "ignoreCase capitalVenueRule = False"
  "body capitalVenueRule =
     Seq WordB (Seq (Group 1 (Alt (str ''at'') (Lit CHR ''@'')))
       (Seq (Plus space) (Seq (Class False [Range CHR ''A'' CHR ''Z''])
         (Seq (Plus (Class False [Range CHR ''a'' CHR ''z'', Range CHR ''A'' CHR ''Z'', Space]))
              WordB))))"
  by (simp_all add: capitalVenueRule_def containsVenuePattern_venuePatterns_def)

lemma capitalVenueRule_needs_capital:
  assumes "rmatch (ignoreCase capitalVenueRule) (body capitalVenueRule) k s = Some res"
  shows "\<exists>x \<in> set (remaining s). isUpper x"
proof -
  let ?tail = "Seq (Plus (Class False [Range CHR ''a'' CHR ''z'', Range CHR ''A'' CHR ''Z'', Space])) WordB"
  let ?cap = "Seq (Class False [Range CHR ''A'' CHR ''Z'']) ?tail"
  from assms have "rmatch False (Seq WordB (Seq (Group 1 (Alt (str ''at'') (Lit CHR ''@'')))
       (Seq (Plus space) ?cap))) k s = Some res"
    by (simp only: capitalVenueRule_body)
  from seq_inside[OF this]
  obtain s1 where s1: "set (remaining s1) \<subseteq> set (remaining s)"
      "rmatch False (Seq (Group 1 (Alt (str ''at'') (Lit CHR ''@''))) (Seq (Plus space) ?cap)) k s1 =
         Some res"
    by blast
  from seq_inside[OF s1(2)]
  obtain s2 where s2: "set (remaining s2) \<subseteq> set (remaining s1)"
      "rmatch False (Seq (Plus space) ?cap) k s2 = Some res"
    by blast
  from seq_inside[OF s2(2)]
  obtain s3 where s3: "set (remaining s3) \<subseteq> set (remaining s2)"
      "rmatch False ?cap k s3 = Some res"
    by blast
  from s3(2) have "step (\<lambda>x. class_mem False [Range CHR ''A'' CHR ''Z''] x \<noteq> False)
      (rmatch False ?tail k) s3 = Some res"
    by simp
  from step_inside[OF this]
  obtain x where "x \<in> set (remaining s3)" "class_mem False [Range CHR ''A'' CHR ''Z''] x"
    by blast
  then have "x \<in> set (remaining s3)" "isUpper x"
    by (simp_all add: class_mem_def isUpper_def)
  with s1(1) s2(1) s3(1) show ?thesis by blast
qed

lemma capitalVenueRule_exec_from:
  "\<forall>x \<in> set rs. \<not> isUpper x \<Longrightarrow> exec_from capitalVenueRule i p rs = None"
proof (induction rs arbitrary: i p)
  case Nil
  show ?case
  proof (cases "rmatch (ignoreCase capitalVenueRule) (body capitalVenueRule) Some (i, p, [], [])")
    case None
    then show ?thesis by simp
  next
    case (Some res)
    from capitalVenueRule_needs_capital[OF this] show ?thesis by simp
  qed
next
  case (Cons x xs)
  have "rmatch (ignoreCase capitalVenueRule) (body capitalVenueRule) Some (i, p, x # xs, []) = None"
  proof (cases "rmatch (ignoreCase capitalVenueRule) (body capitalVenueRule) Some (i, p, x # xs, [])")
    case None
    then show ?thesis .
  next
    case (Some res)
    from capitalVenueRule_needs_capital[OF this] Cons.prems show ?thesis by auto
  qed
  moreover from Cons.prems have "exec_from capitalVenueRule (i + 1) (Some x) xs = None"
    by (intro Cons.IH) simp
  ultimately show ?case by simp
qed

lemma capitalVenueRule_dead: "\<not> test capitalVenueRule (searchText result)"
proof -
  have "\<forall>x \<in> set (searchText result). \<not> isUpper x"
    using searchText_not_upper by blast
  from capitalVenueRule_exec_from[OF this] show ?thesis by (simp add: test_def)
qed


section \<open>Venue extraction\<close>

lemma venue_patterns_bind:
  "binds 1 (body atVenuePattern)" "length (groups (body atVenuePattern)) = 1"
  "binds 1 (body bareVenuePattern)" "length (groups (body bareVenuePattern)) = 1"
  "binds 1 (body labelledVenuePattern)" "length (groups (body labelledVenuePattern)) = 1"
  by code_simp+

lemma venue_group:
  assumes "match text pattern = Some m" and "binds 1 (body pattern)"
    and "length (groups (body pattern)) = 1"
  shows "\<exists>b e. 0 \<le> b \<and> b < e \<and> e \<le> int (length text) \<and> grp m 1 = Some (substring text b e) \<and>
           truthy (grp m 1) \<and> showValue (grp m 1) = substring text b e"
proof -
  from match_binds[OF assms(1,2), of ] assms(3)
  obtain b e where g: "0 \<le> b" "b < e" "e \<le> int (length text)" "grp m 1 = Some (substring text b e)"
    by auto
  from g(1,2,3) have "substring text b e \<noteq> []" by (rule substring_nonempty)
  with g show ?thesis by (auto simp: truthy_def showValue_def)
qed

text \<open>
  Claim C6. \<open>extractVenue\<close> tries its three venue patterns in their order and returns
  the first capture group of the first pattern that matches: a non-empty slice of the input
  text, trimmed and otherwise unchanged. When none of the patterns matches it returns the
  sentinel \<open>See Event Page\<close>. The result is a string in every case.
\<close>

theorem extractVenue_first_match:
  "(match text atVenuePattern = None \<and> match text bareVenuePattern = None \<and>
    match text labelledVenuePattern = None \<longrightarrow>
      extractVenue text = ''See Event Page'') \<and>
   (\<forall>m. match text atVenuePattern = Some m \<or>
        (match text atVenuePattern = None \<and> match text bareVenuePattern = Some m) \<or>
        (match text atVenuePattern = None \<and> match text bareVenuePattern = None \<and>
         match text labelledVenuePattern = Some m) \<longrightarrow>
      (\<exists>b e. 0 \<le> b \<and> b < e \<and> e \<le> int (length text) \<and>
             grp m 1 = Some (substring text b e) \<and>
             extractVenue text = trim (substring text b e)))"
proof (intro conjI allI impI)
  assume "match text atVenuePattern = None \<and> match text bareVenuePattern = None \<and>
    match text labelledVenuePattern = None"
  then show "extractVenue text = ''See Event Page''"
    by (simp add: extractVenue_def extractVenue_venuePatterns_def)
next
  fix m
  assume "match text atVenuePattern = Some m \<or>
        (match text atVenuePattern = None \<and> match text bareVenuePattern = Some m) \<or>
        (match text atVenuePattern = None \<and> match text bareVenuePattern = None \<and>
         match text labelledVenuePattern = Some m)"
  then consider (a) "match text atVenuePattern = Some m"
    | (b) "match text atVenuePattern = None" "match text bareVenuePattern = Some m"
    | (c) "match text atVenuePattern = None" "match text bareVenuePattern = None"
          "match text labelledVenuePattern = Some m"
    by auto
  then show "\<exists>b e. 0 \<le> b \<and> b < e \<and> e \<le> int (length text) \<and>
             grp m 1 = Some (substring text b e) \<and>
             extractVenue text = trim (substring text b e)"
  proof cases
    case a
    from venue_group[OF a venue_patterns_bind(1,2)]
    obtain b e where g: "0 \<le> b" "b < e" "e \<le> int (length text)"
        "grp m 1 = Some (substring text b e)" "truthy (grp m 1)"
        "showValue (grp m 1) = substring text b e"
      by blast
    from a g(5,6) have "extractVenue text = trim (substring text b e)"
      by (simp add: extractVenue_def extractVenue_venuePatterns_def)
    with g(1-4) show ?thesis by blast
  next
    case b
    from venue_group[OF b(2) venue_patterns_bind(3,4)]
    obtain b' e where g: "0 \<le> b'" "b' < e" "e \<le> int (length text)"
        "grp m 1 = Some (substring text b' e)" "truthy (grp m 1)"
        "showValue (grp m 1) = substring text b' e"
      by blast
    from b g(5,6) have "extractVenue text = trim (substring text b' e)"
      by (simp add: extractVenue_def extractVenue_venuePatterns_def)
    with g(1-4) show ?thesis by blast
  next
    case c
    from venue_group[OF c(3) venue_patterns_bind(5,6)]
    obtain b e where g: "0 \<le> b" "b < e" "e \<le> int (length text)"
        "grp m 1 = Some (substring text b e)" "truthy (grp m 1)"
        "showValue (grp m 1) = substring text b e"
      by blast
    from c g(5,6) have "extractVenue text = trim (substring text b e)"
      by (simp add: extractVenue_def extractVenue_venuePatterns_def)
    with g(1-4) show ?thesis by blast
  qed
qed

lemma noVenueText_matches:
  "match noVenueText atVenuePattern = None" "match noVenueText bareVenuePattern = None"
  "match noVenueText labelledVenuePattern = None"
  by code_simp+

lemma hallText_match:
  "match hallText atVenuePattern = Some [Some ''at the Royal Albert Hall'', Some ''the Royal Albert Hall'']"
  by code_simp

lemma trim_hall: "trim ''the Royal Albert Hall'' = ''the Royal Albert Hall''"
  by code_simp

text \<open>
  A text that no venue pattern matches, and a text that names a hall after \<open>at\<close>.
\<close>

theorem extractVenue_first_match_witness:
  "match noVenueText atVenuePattern = None \<and> match noVenueText bareVenuePattern = None \<and>
   match noVenueText labelledVenuePattern = None \<and>
   extractVenue noVenueText = ''See Event Page'' \<and>
   match hallText atVenuePattern =
     Some [Some ''at the Royal Albert Hall'', Some ''the Royal Albert Hall''] \<and>
   extractVenue hallText = ''the Royal Albert Hall''"
proof -
  from extractVenue_first_match[of noVenueText] noVenueText_matches
  have none: "extractVenue noVenueText = ''See Event Page''" by blast
  from extractVenue_first_match[of hallText] hallText_match
  obtain b e where "grp [Some ''at the Royal Albert Hall'', Some ''the Royal Albert Hall''] 1 =
      Some (substring hallText b e)" "extractVenue hallText = trim (substring hallText b e)"
    by blast
  then have "extractVenue hallText = trim ''the Royal Albert Hall''"
    by (simp add: grp_def)
  with none noVenueText_matches hallText_match trim_hall show ?thesis by simp
qed


section \<open>Ticket URL extraction\<close>

text \<open>
  Claim C7, as stated, fails: an event URL on another host that merely mentions a ticketing
  domain in its query string is returned as the ticket URL, although its domain is not in
  the allow-list and the snippet holds a URL whose domain is.
\<close>

theorem extractTicketUrl_domain_counterexample:
  "spec_urlDomain redirectUrl = ''example.com'' \<and>
   \<not> spec_domainAllowed redirectUrl \<and>
   spec_extractTicketUrl (Some redirectUrl) ticketSnippet = Some ''https://www.ticketmaster.com/e/42'' \<and>
   extractTicketUrl (Some redirectUrl) ticketSnippet = Some redirectUrl"
  by code_simp

lemma eventUrl_check:
  "list_ex (\<lambda>domain. truthy eventUrl \<and> includesStr (orEmpty eventUrl) domain) ticketDomains =
     hasTicketDomain (orEmpty eventUrl)"
  by (cases eventUrl) (auto simp: ticketDomains_def hasTicketDomain_def truthy_def orEmpty_def)

text \<open>
  Claim C7, amended. \<open>extractTicketUrl\<close> returns the event URL unchanged when it contains
  an allow-listed domain name as a substring; otherwise it returns the first URL embedded in
  the snippet, in order of appearance, that contains an allow-listed domain name as a
  substring; otherwise it returns none.
\<close>

theorem extractTicketUrl_by_substring:
  "(hasTicketDomain (orEmpty eventUrl) \<longrightarrow> extractTicketUrl eventUrl snippet = eventUrl) \<and>
   (\<not> hasTicketDomain (orEmpty eventUrl) \<longrightarrow>
      extractTicketUrl eventUrl snippet = List.find hasTicketDomain (matchAll snippet urlPattern)) \<and>
   (extractTicketUrl eventUrl snippet = None \<longleftrightarrow>
      \<not> hasTicketDomain (orEmpty eventUrl) \<and>
      (\<forall>url \<in> set (matchAll snippet urlPattern). \<not> hasTicketDomain url))"
proof -
  have "hasTicketDomain (orEmpty eventUrl) \<Longrightarrow> eventUrl \<noteq> None"
    by (cases eventUrl) (auto simp: ticketDomains_def hasTicketDomain_def orEmpty_def)
  then show ?thesis
    unfolding extractTicketUrl_def eventUrl_check
    by (auto simp: find_None_iff)
qed

lemma ticketSnippet_urls:
  "matchAll ticketSnippet urlPattern = [''https://example.org/x'', ''https://www.ticketmaster.com/e/42'']"
  by code_simp

lemma ticket_checks:
  "hasTicketDomain (orEmpty (Some ''https://www.eventbrite.com/e/1''))"
  "\<not> hasTicketDomain (orEmpty (Some ''https://example.org/gig''))"
  "\<not> hasTicketDomain ''https://example.org/x''"
  "hasTicketDomain ''https://www.ticketmaster.com/e/42''"
  by code_simp+

text \<open>
  An event URL on a ticketing platform, and one that is not, with a snippet whose second
  URL is.
\<close>

theorem extractTicketUrl_by_substring_witness:
  "hasTicketDomain (orEmpty (Some ''https://www.eventbrite.com/e/1'')) \<and>
   extractTicketUrl (Some ''https://www.eventbrite.com/e/1'') ticketSnippet =
     Some ''https://www.eventbrite.com/e/1'' \<and>
   \<not> hasTicketDomain (orEmpty (Some ''https://example.org/gig'')) \<and>
   extractTicketUrl (Some ''https://example.org/gig'') ticketSnippet =
     Some ''https://www.ticketmaster.com/e/42''"
proof -
  from extractTicketUrl_by_substring[of "Some ''https://www.eventbrite.com/e/1''" ticketSnippet]
    ticket_checks(1)
  have a: "extractTicketUrl (Some ''https://www.eventbrite.com/e/1'') ticketSnippet =
     Some ''https://www.eventbrite.com/e/1''" by blast
  from extractTicketUrl_by_substring[of "Some ''https://example.org/gig''" ticketSnippet]
    ticket_checks(2)
  have "extractTicketUrl (Some ''https://example.org/gig'') ticketSnippet =
     List.find hasTicketDomain (matchAll ticketSnippet urlPattern)" by blast
  also have "\<dots> = Some ''https://www.ticketmaster.com/e/42''"
    unfolding ticketSnippet_urls using ticket_checks(3,4) by simp
  finally show ?thesis using a ticket_checks(1,2) by blast
qed


section \<open>Date extraction\<close>

lemma extractDateInfo_loop_single_day:
  "endDate (extractDateInfo_loop clk text patterns) = startDate (extractDateInfo_loop clk text patterns)"
  by (induction patterns) (auto split: option.splits)

lemma extractDateInfo_single_day:
  "endDate (extractDateInfo clk text) = startDate (extractDateInfo clk text)"
  by (simp add: extractDateInfo_def extractDateInfo_loop_single_day)

lemma extractDateInfo_loop_fallback:
  "\<forall>pattern \<in> set patterns. match text pattern = None \<or>
       (\<forall>m dateStr. match text pattern = Some m \<longrightarrow> dateStrOf clk pattern m = Some dateStr \<longrightarrow>
           parseDate clk dateStr = None) \<Longrightarrow>
   extractDateInfo_loop clk text patterns = \<lparr>startDate = nowIso clk, endDate = nowIso clk\<rparr>"
  by (induction patterns) (auto split: option.splits)

lemma extractDateInfo_fallback:
  "\<forall>pattern \<in> set extractDateInfo_datePatterns. match text pattern = None \<or>
       (\<forall>m dateStr. match text pattern = Some m \<longrightarrow> dateStrOf clk pattern m = Some dateStr \<longrightarrow>
           parseDate clk dateStr = None) \<Longrightarrow>
   extractDateInfo clk text = \<lparr>startDate = nowIso clk, endDate = nowIso clk\<rparr>"
  unfolding extractDateInfo_def by (rule extractDateInfo_loop_fallback)

lemma date_dispatch:
  "includesStr (rx_source monthDayPattern) ''january|february''"
  "\<not> includesStr (rx_source slashDatePattern) ''january|february''"
  "\<not> includesStr (rx_source slashDatePattern) (bs @ ''d{1,2}'' @ bs @ ''/'')"
  "includesStr (rx_source ordinalDayPattern) ''january|february''"
  by code_simp+

lemma ordinalText_matches:
  "match ordinalText monthDayPattern = None"
  "match ordinalText slashDatePattern = None"
  "match ordinalText ordinalDayPattern = Some [Some ''3rd march'', Some ''3'', Some ''rd'', Some ''march'']"
  by code_simp+

lemma slashText_matches:
  "match slashText monthDayPattern = None"
  "match slashText slashDatePattern = Some [Some ''3/14/2025'', Some ''3'', Some ''14'', Some ''2025'']"
  by code_simp+

text \<open>
  Claim C4 says that a missing year defaults to the current year. For a day written with an
  ordinal suffix the code does not do so: the source of the ordinal pattern contains
  \<open>january|february\<close> too, so the month-name interpretation is chosen for it, and the
  string handed to the date parser is \<open>3 rd, march\<close> whatever the current year is. The
  interpretation written for this pattern, which reads the current year, is never reached.
\<close>

theorem extractDateInfo_ordinal_day:
  "extractDateInfo clk ordinalText =
     (case parseDate clk ''3 rd, march'' of
        None \<Rightarrow> \<lparr>startDate = nowIso clk, endDate = nowIso clk\<rparr>
      | Some d \<Rightarrow> \<lparr>startDate = d, endDate = d\<rparr>)"
proof -
  have "dateStrOf clk ordinalDayPattern [Some ''3rd march'', Some ''3'', Some ''rd'', Some ''march''] =
          Some ''3 rd, march''"
    unfolding dateStrOf_def
    by (simp only: date_dispatch if_True if_False) (simp add: grp_def truthy_def showValue_def)
  then show ?thesis
    by (simp add: extractDateInfo_def extractDateInfo_datePatterns_def ordinalText_matches
             split: option.splits)
qed

lemma extractDateInfo_slash_date:
  "extractDateInfo clk slashText =
     (case parseDate clk (''2025 3, '' @ showInt (nowYear clk)) of
        None \<Rightarrow> \<lparr>startDate = nowIso clk, endDate = nowIso clk\<rparr>
      | Some d \<Rightarrow> \<lparr>startDate = d, endDate = d\<rparr>)"
proof -
  have "dateStrOf clk slashDatePattern [Some ''3/14/2025'', Some ''3'', Some ''14'', Some ''2025''] =
          Some (''2025 3, '' @ showInt (nowYear clk))"
    unfolding dateStrOf_def
    by (simp only: date_dispatch if_True if_False) (simp add: grp_def truthy_def showValue_def)
  moreover have "match slashText ordinalDayPattern = None" by code_simp
  ultimately show ?thesis
    by (simp add: extractDateInfo_def extractDateInfo_datePatterns_def slashText_matches
             split: option.splits)
qed

section \<open>The scenario of the specification\<close>

lemma scenario_classified: "isEventResult scenarioResult"
  by code_simp

lemma scenario_venue: "extractVenue scenarioText = ''See Event Page''"
  by code_simp

lemma scenario_not_blue_note: "\<not> includesStr ''See Event Page'' ''Blue Note''"
  by code_simp

lemma scenarioText_matches:
  "match scenarioText monthDayPattern =
     Some [Some ''March 15, 2025'', Some ''March'', Some ''15'', Some ''2025'']"
  "match scenarioText slashDatePattern = None"
  "match scenarioText ordinalDayPattern = None"
  by code_simp+

lemma scenario_date:
  "extractDateInfo clk scenarioText =
     (case parseDate clk ''March 15, 2025'' of
        None \<Rightarrow> \<lparr>startDate = nowIso clk, endDate = nowIso clk\<rparr>
      | Some d \<Rightarrow> \<lparr>startDate = d, endDate = d\<rparr>)"
proof -
  have "dateStrOf clk monthDayPattern [Some ''March 15, 2025'', Some ''March'', Some ''15'', Some ''2025''] =
          Some ''March 15, 2025''"
    unfolding dateStrOf_def
    by (simp only: date_dispatch if_True if_False) (simp add: grp_def truthy_def showValue_def)
  then show ?thesis
    by (simp add: extractDateInfo_def extractDateInfo_datePatterns_def scenarioText_matches
             split: option.splits)
qed

lemma scenario_ticket:
  "extractTicketUrl (Some ''https://eventbrite.com/jazz'') ''Tickets available on eventbrite.com'' =
     Some ''https://eventbrite.com/jazz''"
  by code_simp

lemma scenario_id:
  "eventIdOf ''Jazz Festival at Blue Note on March 15, 2025'' =
     ''serper_jazz_festival_at_blue_note_on_march_15__2025''"
  by code_simp

lemma scenario_boosts:
  "list_ex (\<lambda>domain. includesStr (scoreText scenarioResult) domain) eventDomains"
  "\<not> includesStr (scoreText scenarioResult) (toLowerCase ''music'')"
  "list_ex (\<lambda>keyword. includesStr (scoreText scenarioResult) keyword) calculateConfidence_eventKeywords"
  "containsDatePattern (scoreText scenarioResult)"
  by code_simp+

lemma scenario_confidence:
  "calculateConfidence scenarioResult ''music'' = 8556839292003943 / 2 ^ 53"
proof -
  have "calculateConfidence scenarioResult ''music'' = min (fadd (fadd (fadd d0_6 d0_2) d0_1) d0_05) 1"
    by (simp add: calculateConfidence_def Let_def scenario_boosts)
  also have "\<dots> = min (8556839292003943 / 2 ^ 53) 1"
    by (simp only: fadd_06_02 fadd_08_01 fadd_09_005)
  also have "\<dots> = 8556839292003943 / 2 ^ 53" by simp
  finally show ?thesis .
qed

lemma scenario_transform:
  "transformEvent clk scenarioResult ''music'' =
     Some \<lparr>ev_id = ''serper_jazz_festival_at_blue_note_on_march_15__2025'',
           ev_title = ''Jazz Festival at Blue Note on March 15, 2025'',
           ev_description = ''Tickets available on eventbrite.com'',
           ev_category = ''music'',
           ev_venue = ''See Event Page'',
           ev_location = ''See Event Page'',
           ev_startDate = (case parseDate clk ''March 15, 2025'' of None \<Rightarrow> nowIso clk | Some d \<Rightarrow> d),
           ev_endDate = (case parseDate clk ''March 15, 2025'' of None \<Rightarrow> nowIso clk | Some d \<Rightarrow> d),
           ev_eventUrl = Some ''https://eventbrite.com/jazz'',
           ev_ticketUrl = Some ''https://eventbrite.com/jazz'',
           ev_source = ''serper_api'',
           ev_confidence = 8556839292003943 / 2 ^ 53,
           ev_thumbnail = None\<rparr>"
  by (simp add: transformEvent_def Let_def scenarioResult_def orElse_def truthy_def orEmpty_def
        scenario_date[unfolded scenarioText_def] scenario_venue[unfolded scenarioText_def]
        scenario_ticket scenario_id scenario_confidence[unfolded scenarioResult_def]
      split: option.splits)

text \<open>
  Claim C5, as stated, fails on the scenario of the specification: the extracted venue is
  the sentinel, which does not contain \<open>Blue Note\<close>, and the confidence is not the
  double 0.95.
\<close>

theorem scenario_counterexample:
  "map_option ev_venue (transformEvent sampleClock scenarioResult ''music'') = Some ''See Event Page'' \<and>
   \<not> includesStr ''See Event Page'' ''Blue Note'' \<and>
   map_option ev_confidence (transformEvent sampleClock scenarioResult ''music'') \<noteq> Some d0_95"
  using scenario_not_blue_note
  by (simp add: scenario_transform d0_95_def)

text \<open>
  Claim C5, amended. For the scenario result and the category \<open>music\<close>: the classifier
  accepts the result; no venue pattern matches, so the venue is the sentinel
  \<open>See Event Page\<close>; the date string handed to the parser is \<open>March 15, 2025\<close> and the
  start and end dates are what the parser makes of it; the ticket URL is the link; the domain,
  keyword and date boosts apply and the category boost does not; and the confidence is the
  binary64 sum of 0.6, 0.2, 0.1 and 0.05, which is 0.9500000000000001, one unit in the last
  place above the double 0.95.
\<close>

theorem scenario_event:
  "isEventResult scenarioResult \<and>
   transformEvent clk scenarioResult ''music'' =
     Some \<lparr>ev_id = ''serper_jazz_festival_at_blue_note_on_march_15__2025'',
           ev_title = ''Jazz Festival at Blue Note on March 15, 2025'',
           ev_description = ''Tickets available on eventbrite.com'',
           ev_category = ''music'',
           ev_venue = ''See Event Page'',
           ev_location = ''See Event Page'',
           ev_startDate = (case parseDate clk ''March 15, 2025'' of None \<Rightarrow> nowIso clk | Some d \<Rightarrow> d),
           ev_endDate = (case parseDate clk ''March 15, 2025'' of None \<Rightarrow> nowIso clk | Some d \<Rightarrow> d),
           ev_eventUrl = Some ''https://eventbrite.com/jazz'',
           ev_ticketUrl = Some ''https://eventbrite.com/jazz'',
           ev_source = ''serper_api'',
           ev_confidence = 8556839292003943 / 2 ^ 53,
           ev_thumbnail = None\<rparr> \<and>
   list_ex (\<lambda>domain. includesStr (scoreText scenarioResult) domain) eventDomains \<and>
   \<not> includesStr (scoreText scenarioResult) (toLowerCase ''music'') \<and>
   list_ex (\<lambda>keyword. includesStr (scoreText scenarioResult) keyword) calculateConfidence_eventKeywords \<and>
   containsDatePattern (scoreText scenarioResult) \<and>
   fadd (fadd (fadd d0_6 d0_2) d0_1) d0_05 = 8556839292003943 / 2 ^ 53 \<and>
   d0_95 < 8556839292003943 / 2 ^ 53 \<and> (8556839292003943 / 2 ^ 53 :: rat) < 96 / 100"
proof -
  have "fadd (fadd (fadd d0_6 d0_2) d0_1) d0_05 = 8556839292003943 / 2 ^ 53"
    by (simp only: fadd_06_02 fadd_08_01 fadd_09_005)
  with scenario_classified scenario_transform[of clk] scenario_boosts show ?thesis
    by (simp add: d0_95_def)
qed

end
